theory Spec2Isabelle
  imports Main "HOL-Library.Word"
begin

unbundle bit_operations_syntax

section \<open>The identifier codec (id.go)\<close>

subsection \<open>Data\<close>

text \<open>
  \<^verbatim>\<open>type SFID [16]byte\<close>: an identifier is an array of 16 octets. It is modelled as a
  list of bytes; the array type fixes the length at 16, which theorems about identifiers
  take as the hypothesis \<open>length sfid = 16\<close> (the Go variable \<^verbatim>\<open>id\<close> is written \<open>sfid\<close>, since \<open>id\<close> is HOL's identity function). Go strings and byte slices are sequences of
  bytes: a \<open>string\<close> is a \<open>char list\<close> (HOL characters are bytes) and a \<^verbatim>\<open>[]byte\<close> is a
  \<open>byte list\<close>.
\<close>

type_synonym byte = "8 word"
type_synonym SFID = "byte list"

datatype error =
    ErrDataSize
  | ErrInvalidCharacters
  | ErrBufferSize
  | ErrBigTime
  | ErrBigNonce
  | ErrBigSN
  | ErrOverflow
  | ErrScanValue

text \<open>The conversions \<^verbatim>\<open>[]byte(s)\<close> and \<^verbatim>\<open>string(b)\<close>.\<close>

definition bytes_of_string :: "string \<Rightarrow> byte list" where
  "bytes_of_string s = map of_char s"

definition string_of_bytes :: "byte list \<Rightarrow> string" where
  "string_of_bytes b = map (\<lambda>w. char_of (unat w)) b"

text \<open>The zero value of the array type, \<^verbatim>\<open>var id SFID\<close>.\<close>

definition zero_SFID :: SFID where
  "zero_SFID = replicate 16 0"

definition EncodedSize :: nat where
  "EncodedSize = 26"

definition Encoding :: string where
  "Encoding = ''0123456789ABCDEFGHJKMNPQRSTVWXYZ''"

text \<open>The byte to index table; \<open>0xFF\<close> marks a byte that is not a digit.\<close>

definition dec :: "byte list" where
  "dec = [
     0xFF, 0xFF, 0xFF, 0xFF, 0xFF, 0xFF, 0xFF, 0xFF, 0xFF, 0xFF,
     0xFF, 0xFF, 0xFF, 0xFF, 0xFF, 0xFF, 0xFF, 0xFF, 0xFF, 0xFF,
     0xFF, 0xFF, 0xFF, 0xFF, 0xFF, 0xFF, 0xFF, 0xFF, 0xFF, 0xFF,
     0xFF, 0xFF, 0xFF, 0xFF, 0xFF, 0xFF, 0xFF, 0xFF, 0xFF, 0xFF,
     0xFF, 0xFF, 0xFF, 0xFF, 0xFF, 0xFF, 0xFF, 0xFF, 0x00, 0x01,
     0x02, 0x03, 0x04, 0x05, 0x06, 0x07, 0x08, 0x09, 0xFF, 0xFF,
     0xFF, 0xFF, 0xFF, 0xFF, 0xFF, 0x0A, 0x0B, 0x0C, 0x0D, 0x0E,
     0x0F, 0x10, 0x11, 0xFF, 0x12, 0x13, 0xFF, 0x14, 0x15, 0xFF,
     0x16, 0x17, 0x18, 0x19, 0x1A, 0xFF, 0x1B, 0x1C, 0x1D, 0x1E,
     0x1F, 0xFF, 0xFF, 0xFF, 0xFF, 0xFF, 0xFF, 0x0A, 0x0B, 0x0C,
     0x0D, 0x0E, 0x0F, 0x10, 0x11, 0xFF, 0x12, 0x13, 0xFF, 0x14,
     0x15, 0xFF, 0x16, 0x17, 0x18, 0x19, 0x1A, 0xFF, 0x1B, 0x1C,
     0x1D, 0x1E, 0x1F, 0xFF, 0xFF, 0xFF, 0xFF, 0xFF, 0xFF, 0xFF,
     0xFF, 0xFF, 0xFF, 0xFF, 0xFF, 0xFF, 0xFF, 0xFF, 0xFF, 0xFF,
     0xFF, 0xFF, 0xFF, 0xFF, 0xFF, 0xFF, 0xFF, 0xFF, 0xFF, 0xFF,
     0xFF, 0xFF, 0xFF, 0xFF, 0xFF, 0xFF, 0xFF, 0xFF, 0xFF, 0xFF,
     0xFF, 0xFF, 0xFF, 0xFF, 0xFF, 0xFF, 0xFF, 0xFF, 0xFF, 0xFF,
     0xFF, 0xFF, 0xFF, 0xFF, 0xFF, 0xFF, 0xFF, 0xFF, 0xFF, 0xFF,
     0xFF, 0xFF, 0xFF, 0xFF, 0xFF, 0xFF, 0xFF, 0xFF, 0xFF, 0xFF,
     0xFF, 0xFF, 0xFF, 0xFF, 0xFF, 0xFF, 0xFF, 0xFF, 0xFF, 0xFF,
     0xFF, 0xFF, 0xFF, 0xFF, 0xFF, 0xFF, 0xFF, 0xFF, 0xFF, 0xFF,
     0xFF, 0xFF, 0xFF, 0xFF, 0xFF, 0xFF, 0xFF, 0xFF, 0xFF, 0xFF,
     0xFF, 0xFF, 0xFF, 0xFF, 0xFF, 0xFF, 0xFF, 0xFF, 0xFF, 0xFF,
     0xFF, 0xFF, 0xFF, 0xFF, 0xFF, 0xFF, 0xFF, 0xFF, 0xFF, 0xFF,
     0xFF, 0xFF, 0xFF, 0xFF, 0xFF, 0xFF, 0xFF, 0xFF, 0xFF, 0xFF,
     0xFF, 0xFF, 0xFF, 0xFF, 0xFF, 0xFF
  ]"

subsection \<open>Parsing the text form\<close>

text \<open>
  \<^verbatim>\<open>func parse(v []byte, strict bool, id *SFID) error\<close> writes through the pointer
  \<^verbatim>\<open>id\<close> and returns an error. The model takes the identifier stored there before the
  call and returns the identifier stored there after it, with the error (\<open>None\<close> is
  \<^verbatim>\<open>nil\<close>). Shifts are on bytes and drop the bits shifted out, as Go's do.
\<close>

definition parse :: "byte list \<Rightarrow> bool \<Rightarrow> SFID \<Rightarrow> SFID \<times> error option" where
  "parse v strict sfid =
    (if length v \<noteq> EncodedSize then (sfid, Some ErrDataSize)
     else if strict \<and>
       (dec ! unat (v ! 0) = 0xFF \<or>
        dec ! unat (v ! 1) = 0xFF \<or>
        dec ! unat (v ! 2) = 0xFF \<or>
        dec ! unat (v ! 3) = 0xFF \<or>
        dec ! unat (v ! 4) = 0xFF \<or>
        dec ! unat (v ! 5) = 0xFF \<or>
        dec ! unat (v ! 6) = 0xFF \<or>
        dec ! unat (v ! 7) = 0xFF \<or>
        dec ! unat (v ! 8) = 0xFF \<or>
        dec ! unat (v ! 9) = 0xFF \<or>
        dec ! unat (v ! 10) = 0xFF \<or>
        dec ! unat (v ! 11) = 0xFF \<or>
        dec ! unat (v ! 12) = 0xFF \<or>
        dec ! unat (v ! 13) = 0xFF \<or>
        dec ! unat (v ! 14) = 0xFF \<or>
        dec ! unat (v ! 15) = 0xFF \<or>
        dec ! unat (v ! 16) = 0xFF \<or>
        dec ! unat (v ! 17) = 0xFF \<or>
        dec ! unat (v ! 18) = 0xFF \<or>
        dec ! unat (v ! 19) = 0xFF \<or>
        dec ! unat (v ! 20) = 0xFF \<or>
        dec ! unat (v ! 21) = 0xFF \<or>
        dec ! unat (v ! 22) = 0xFF \<or>
        dec ! unat (v ! 23) = 0xFF \<or>
        dec ! unat (v ! 24) = 0xFF \<or>
        dec ! unat (v ! 25) = 0xFF)
       then (sfid, Some ErrInvalidCharacters)
     else if v ! 0 > of_char CHR ''7'' then (sfid, Some ErrOverflow)
     else (sfid
       [0 := push_bit 5 (dec ! unat (v ! 0)) OR dec ! unat (v ! 1),
        1 := push_bit 3 (dec ! unat (v ! 2)) OR drop_bit 2 (dec ! unat (v ! 3)),
        2 := push_bit 6 (dec ! unat (v ! 3)) OR push_bit 1 (dec ! unat (v ! 4)) OR drop_bit 4 (dec ! unat (v ! 5)),
        3 := push_bit 4 (dec ! unat (v ! 5)) OR drop_bit 1 (dec ! unat (v ! 6)),
        4 := push_bit 7 (dec ! unat (v ! 6)) OR push_bit 2 (dec ! unat (v ! 7)) OR drop_bit 3 (dec ! unat (v ! 8)),
        5 := push_bit 5 (dec ! unat (v ! 8)) OR dec ! unat (v ! 9),
        6 := push_bit 3 (dec ! unat (v ! 10)) OR drop_bit 2 (dec ! unat (v ! 11)),
        7 := push_bit 6 (dec ! unat (v ! 11)) OR push_bit 1 (dec ! unat (v ! 12)) OR drop_bit 4 (dec ! unat (v ! 13)),
        8 := push_bit 4 (dec ! unat (v ! 13)) OR drop_bit 1 (dec ! unat (v ! 14)),
        9 := push_bit 7 (dec ! unat (v ! 14)) OR push_bit 2 (dec ! unat (v ! 15)) OR drop_bit 3 (dec ! unat (v ! 16)),
        10 := push_bit 5 (dec ! unat (v ! 16)) OR dec ! unat (v ! 17),
        11 := push_bit 3 (dec ! unat (v ! 18)) OR drop_bit 2 (dec ! unat (v ! 19)),
        12 := push_bit 6 (dec ! unat (v ! 19)) OR push_bit 1 (dec ! unat (v ! 20)) OR drop_bit 4 (dec ! unat (v ! 21)),
        13 := push_bit 4 (dec ! unat (v ! 21)) OR drop_bit 1 (dec ! unat (v ! 22)),
        14 := push_bit 7 (dec ! unat (v ! 22)) OR push_bit 2 (dec ! unat (v ! 23)) OR drop_bit 3 (dec ! unat (v ! 24)),
        15 := push_bit 5 (dec ! unat (v ! 24)) OR dec ! unat (v ! 25)], None))"

text \<open>
  \<^verbatim>\<open>Parse\<close> and \<^verbatim>\<open>ParseStrict\<close> return the named result \<^verbatim>\<open>id\<close>, a zero identifier that
  \<^verbatim>\<open>parse\<close> has written through \<^verbatim>\<open>&id\<close>, together with the error of \<^verbatim>\<open>parse\<close>.
\<close>

definition Parse :: "string \<Rightarrow> SFID \<times> error option" where
  "Parse s = parse (bytes_of_string s) False zero_SFID"

definition ParseStrict :: "string \<Rightarrow> SFID \<times> error option" where
  "ParseStrict s = parse (bytes_of_string s) True zero_SFID"

definition UnmarshalText :: "SFID \<Rightarrow> byte list \<Rightarrow> SFID \<times> error option" where
  "UnmarshalText sfid v = parse v False sfid"

subsection \<open>The binary form\<close>

text \<open>
  \<^verbatim>\<open>MarshalBinaryTo\<close> and \<^verbatim>\<open>MarshalTextTo\<close> write into the caller's buffer \<open>dst\<close>:
  the model returns the buffer after the call and the error.
\<close>

definition MarshalBinaryTo :: "SFID \<Rightarrow> byte list \<Rightarrow> byte list \<times> error option" where
  "MarshalBinaryTo sfid dst =
    (if length dst \<noteq> length sfid then (dst, Some ErrBufferSize)
     else (sfid, None))"

definition MarshalBinary :: "SFID \<Rightarrow> byte list \<times> error option" where
  "MarshalBinary sfid = MarshalBinaryTo sfid (replicate (length sfid) 0)"

definition UnmarshalBinary :: "SFID \<Rightarrow> byte list \<Rightarrow> SFID \<times> error option" where
  "UnmarshalBinary sfid data =
    (if length data \<noteq> length sfid then (sfid, Some ErrDataSize)
     else (data, None))"

subsection \<open>Writing the text form\<close>

definition MarshalTextTo :: "SFID \<Rightarrow> byte list \<Rightarrow> byte list \<times> error option" where
  "MarshalTextTo sfid dst =
    (if length dst \<noteq> EncodedSize then (dst, Some ErrBufferSize)
     else (dst
       [0 := of_char (Encoding ! unat (drop_bit 5 (sfid ! 0 AND 224))),
        1 := of_char (Encoding ! unat (sfid ! 0 AND 31)),
        2 := of_char (Encoding ! unat (drop_bit 3 (sfid ! 1 AND 248))),
        3 := of_char (Encoding ! unat (push_bit 2 (sfid ! 1 AND 7) OR drop_bit 6 (sfid ! 2 AND 192))),
        4 := of_char (Encoding ! unat (drop_bit 1 (sfid ! 2 AND 62))),
        5 := of_char (Encoding ! unat (push_bit 4 (sfid ! 2 AND 1) OR drop_bit 4 (sfid ! 3 AND 240))),
        6 := of_char (Encoding ! unat (push_bit 1 (sfid ! 3 AND 15) OR drop_bit 7 (sfid ! 4 AND 128))),
        7 := of_char (Encoding ! unat (drop_bit 2 (sfid ! 4 AND 124))),
        8 := of_char (Encoding ! unat (push_bit 3 (sfid ! 4 AND 3) OR drop_bit 5 (sfid ! 5 AND 224))),
        9 := of_char (Encoding ! unat (sfid ! 5 AND 31)),
        10 := of_char (Encoding ! unat (drop_bit 3 (sfid ! 6 AND 248))),
        11 := of_char (Encoding ! unat (push_bit 2 (sfid ! 6 AND 7) OR drop_bit 6 (sfid ! 7 AND 192))),
        12 := of_char (Encoding ! unat (drop_bit 1 (sfid ! 7 AND 62))),
        13 := of_char (Encoding ! unat (push_bit 4 (sfid ! 7 AND 1) OR drop_bit 4 (sfid ! 8 AND 240))),
        14 := of_char (Encoding ! unat (push_bit 1 (sfid ! 8 AND 15) OR drop_bit 7 (sfid ! 9 AND 128))),
        15 := of_char (Encoding ! unat (drop_bit 2 (sfid ! 9 AND 124))),
        16 := of_char (Encoding ! unat (push_bit 3 (sfid ! 9 AND 3) OR drop_bit 5 (sfid ! 10 AND 224))),
        17 := of_char (Encoding ! unat (sfid ! 10 AND 31)),
        18 := of_char (Encoding ! unat (drop_bit 3 (sfid ! 11 AND 248))),
        19 := of_char (Encoding ! unat (push_bit 2 (sfid ! 11 AND 7) OR drop_bit 6 (sfid ! 12 AND 192))),
        20 := of_char (Encoding ! unat (drop_bit 1 (sfid ! 12 AND 62))),
        21 := of_char (Encoding ! unat (push_bit 4 (sfid ! 12 AND 1) OR drop_bit 4 (sfid ! 13 AND 240))),
        22 := of_char (Encoding ! unat (push_bit 1 (sfid ! 13 AND 15) OR drop_bit 7 (sfid ! 14 AND 128))),
        23 := of_char (Encoding ! unat (drop_bit 2 (sfid ! 14 AND 124))),
        24 := of_char (Encoding ! unat (push_bit 3 (sfid ! 14 AND 3) OR drop_bit 5 (sfid ! 15 AND 224))),
        25 := of_char (Encoding ! unat (sfid ! 15 AND 31))], None))"

definition MarshalText :: "SFID \<Rightarrow> byte list \<times> error option" where
  "MarshalText sfid = MarshalTextTo sfid (replicate EncodedSize 0)"

definition String :: "SFID \<Rightarrow> string" where
  "String sfid = string_of_bytes (fst (MarshalTextTo sfid (replicate EncodedSize 0)))"

subsection \<open>Fields\<close>

text \<open>The getters widen each byte to the result type before shifting.\<close>

definition Time :: "SFID \<Rightarrow> 64 word" where
  "Time sfid =
     ucast (sfid ! 5) OR push_bit 8 (ucast (sfid ! 4)) OR
     push_bit 16 (ucast (sfid ! 3)) OR push_bit 24 (ucast (sfid ! 2)) OR
     push_bit 32 (ucast (sfid ! 1)) OR push_bit 40 (ucast (sfid ! 0))"

definition Node :: "SFID \<Rightarrow> 16 word" where
  "Node sfid = push_bit 8 (ucast (sfid ! 6)) OR ucast (sfid ! 7)"

definition Nonce :: "SFID \<Rightarrow> 64 word" where
  "Nonce sfid =
     push_bit 32 (ucast (sfid ! 8)) OR push_bit 24 (ucast (sfid ! 9)) OR
     push_bit 16 (ucast (sfid ! 10)) OR push_bit 8 (ucast (sfid ! 11)) OR ucast (sfid ! 12)"

definition SN :: "SFID \<Rightarrow> 32 word" where
  "SN sfid = push_bit 16 (ucast (sfid ! 13)) OR push_bit 8 (ucast (sfid ! 14)) OR ucast (sfid ! 15)"

text \<open>\<^verbatim>\<open>var maxTime = SFID{0xFF, 0xFF, 0xFF, 0xFF, 0xFF, 0xFF}.Time()\<close>: the other ten bytes of
  the literal are zero.\<close>

definition maxTime :: "64 word" where
  "maxTime = Time [0xFF, 0xFF, 0xFF, 0xFF, 0xFF, 0xFF, 0, 0, 0, 0, 0, 0, 0, 0, 0, 0]"

definition MaxTime :: "64 word" where
  "MaxTime = maxTime"

definition MaxNonce :: "64 word" where
  "MaxNonce = 0xFFFFFFFFFF"

definition maxSN :: "32 word" where
  "maxSN = push_bit 24 1 - 1"

text \<open>
  The setters write through the pointer receiver: the model returns the identifier after
  the call and the error. \<^verbatim>\<open>byte(x)\<close> keeps the low eight bits. \<^verbatim>\<open>SetNode\<close> has no error
  result.
\<close>

definition SetTime :: "SFID \<Rightarrow> 64 word \<Rightarrow> SFID \<times> error option" where
  "SetTime sfid ms =
    (if ms > maxTime then (sfid, Some ErrBigTime)
     else (sfid
       [0 := ucast (drop_bit 40 ms),
        1 := ucast (drop_bit 32 ms),
        2 := ucast (drop_bit 24 ms),
        3 := ucast (drop_bit 16 ms),
        4 := ucast (drop_bit 8 ms),
        5 := ucast ms], None))"

definition SetNode :: "SFID \<Rightarrow> 16 word \<Rightarrow> SFID" where
  "SetNode sfid nodeid = sfid[6 := ucast (drop_bit 8 nodeid), 7 := ucast nodeid]"

definition SetNonce :: "SFID \<Rightarrow> 64 word \<Rightarrow> SFID \<times> error option" where
  "SetNonce sfid n =
    (if n > MaxNonce then (sfid, Some ErrBigNonce)
     else (sfid
       [8 := ucast (drop_bit 32 n),
        9 := ucast (drop_bit 24 n),
        10 := ucast (drop_bit 16 n),
        11 := ucast (drop_bit 8 n),
        12 := ucast n], None))"

definition SetSN :: "SFID \<Rightarrow> 32 word \<Rightarrow> SFID \<times> error option" where
  "SetSN sfid k =
    (if k > maxSN then (sfid, Some ErrBigSN)
     else (sfid
       [13 := ucast (drop_bit 16 k),
        14 := ucast (drop_bit 8 k),
        15 := ucast k], None))"

subsection \<open>Ordering\<close>

text \<open>
  \<^verbatim>\<open>bytes.Compare\<close> of the Go standard library, as its documentation defines it: the
  lexicographic comparison of two byte slices, with result \<open>0\<close> if \<open>a = b\<close>, \<open>-1\<close> if
  \<open>a < b\<close> and \<open>+1\<close> if \<open>a > b\<close>; a proper prefix is smaller.
\<close>

fun bytes_Compare :: "byte list \<Rightarrow> byte list \<Rightarrow> int" where
  "bytes_Compare [] [] = 0"
| "bytes_Compare [] (y # ys) = - 1"
| "bytes_Compare (x # xs) [] = 1"
| "bytes_Compare (x # xs) (y # ys) =
     (if x < y then - 1 else if y < x then 1 else bytes_Compare xs ys)"

definition Compare :: "SFID \<Rightarrow> SFID \<Rightarrow> int" where
  "Compare sfid other = bytes_Compare sfid other"

text \<open>
  Go compares strings byte by byte (\<^verbatim>\<open>strings.Compare\<close>, and the operators \<^verbatim>\<open><\<close> and
  \<^verbatim>\<open>==\<close> on strings).
\<close>

definition strings_Compare :: "string \<Rightarrow> string \<Rightarrow> int" where
  "strings_Compare a b = bytes_Compare (bytes_of_string a) (bytes_of_string b)"

text \<open>
  The number that a sequence of bytes denotes when it is read as digits of base \<open>B\<close>, most
  significant first; \<open>uint128\<close> is the unsigned big-endian value of the 16 octets of an
  identifier.
\<close>

definition be_nat :: "nat \<Rightarrow> byte list \<Rightarrow> nat" where
  "be_nat B ds = foldl (\<lambda>acc d. acc * B + unat d) 0 ds"

definition uint128 :: "SFID \<Rightarrow> nat" where
  "uint128 sfid = be_nat 256 sfid"

subsection \<open>The database binding\<close>

text \<open>
  \<^verbatim>\<open>Scan(src interface{})\<close> switches on the dynamic type of \<open>src\<close>. The datatype lists
  \<^verbatim>\<open>nil\<close>, the two types the switch decodes, and values of other types (the other
  types a database driver hands over, and one constructor for any further type).
\<close>

datatype src =
    SrcNil
  | SrcString string
  | SrcBytes "byte list"
  | SrcInt64 "64 word"
  | SrcBool bool
  | SrcOther

fun Scan :: "SFID \<Rightarrow> src \<Rightarrow> SFID \<times> error option" where
  "Scan sfid SrcNil = (sfid, None)"
| "Scan sfid (SrcString x) = UnmarshalText sfid (bytes_of_string x)"
| "Scan sfid (SrcBytes x) = UnmarshalBinary sfid x"
| "Scan sfid _ = (sfid, Some ErrScanValue)"

definition Value :: "SFID \<Rightarrow> byte list \<times> error option" where
  "Value sfid = MarshalBinary sfid"

section \<open>The sequence generator\<close>

definition SNMask :: "32 word" where
  "SNMask = 0xFFFFFF"

record SnowflakePro =
  sn :: "32 word"
  node :: "16 word"
  nonce :: "64 word"
  tms :: "64 word"

definition NewSnowflakePro :: "16 word \<Rightarrow> 64 word \<Rightarrow> error + SnowflakePro" where
  "NewSnowflakePro nodeid n =
    (if n > MaxNonce then Inl ErrBigNonce
     else Inr \<lparr>sn = 0, node = nodeid, nonce = n, tms = 0\<rparr>)"

text \<open>
  The wall clock is an input: \<open>clock\<close> is the list of the values that the successive calls
  of \<^verbatim>\<open>time.Now().UnixMilli()\<close> return, each an \<^verbatim>\<open>int64\<close> given by its 64 bits. A call
  that reads the clock takes the head of the list and hands the rest on. Sleeping only
  lets time pass, so it does not appear. When the list is used up the call has not
  returned within the readings given: the result is \<open>None\<close>.

  \<^verbatim>\<open>until\<close> computes \<^verbatim>\<open>dur := tms - now\<close> on \<^verbatim>\<open>int64\<close> (the subtraction wraps) and loops while
  \<^verbatim>\<open>dur > 0\<close>, a signed comparison.
\<close>

type_synonym clock = "64 word list"

fun until :: "64 word \<Rightarrow> clock \<Rightarrow> clock option" where
  "until t [] = None"
| "until t (now # clk) = (if 0 <s t - now then until t clk else Some clk)"

text \<open>
  The part of \<^verbatim>\<open>Next\<close> between \<^verbatim>\<open>s.Lock()\<close> and \<^verbatim>\<open>s.Unlock()\<close>. The comparison
  \<^verbatim>\<open>now <= s.tms\<close> is on \<^verbatim>\<open>uint64\<close>; \<^verbatim>\<open>uint64(x)\<close> and \<^verbatim>\<open>int64(x)\<close> keep the 64 bits.
\<close>

definition Next_locked :: "SnowflakePro \<Rightarrow> clock \<Rightarrow> (SnowflakePro \<times> clock) option" where
  "Next_locked s clk =
    (case clk of
       [] \<Rightarrow> None
     | now # clk' \<Rightarrow>
        if now \<le> tms s then
          (let s1 = s\<lparr>sn := (sn s + 1) AND SNMask\<rparr> in
           if sn s1 = 0 then
             (let s2 = s1\<lparr>tms := tms s1 + 1\<rparr> in
              case until (tms s2) clk' of
                None \<Rightarrow> None
              | Some clk'' \<Rightarrow> Some (s2, clk''))
           else Some (s1, clk'))
        else Some (s\<lparr>sn := 0, tms := now\<rparr>, clk'))"

text \<open>
  \<^verbatim>\<open>Next\<close> drops the errors of \<^verbatim>\<open>SetNonce\<close>, \<^verbatim>\<open>SetTime\<close> and \<^verbatim>\<open>SetSN\<close>: a setter that
  fails leaves its bytes as they were. The result is the identifier, the generator
  after the call and the rest of the clock.
\<close>

definition Next :: "SnowflakePro \<Rightarrow> clock \<Rightarrow> (SFID \<times> SnowflakePro \<times> clock) option" where
  "Next s clk =
    (let sfid0 = zero_SFID;
         sfid1 = SetNode sfid0 (node s);
         sfid2 = fst (SetNonce sfid1 (nonce s))
     in case Next_locked s clk of
          None \<Rightarrow> None
        | Some (s', clk') \<Rightarrow>
           (let sfid3 = fst (SetTime sfid2 (tms s'));
                sfid4 = fst (SetSN sfid3 (sn s'))
            in Some (sfid4, s', clk')))"

text \<open>\<open>n\<close> calls of \<^verbatim>\<open>Next\<close> one after the other, each starting after the one before it
  has returned, with the identifiers in the order of the calls.\<close>

fun Nexts :: "nat \<Rightarrow> SnowflakePro \<Rightarrow> clock \<Rightarrow> (SFID list \<times> SnowflakePro \<times> clock) option" where
  "Nexts 0 s clk = Some ([], s, clk)"
| "Nexts (Suc n) s clk =
    (case Next s clk of
       None \<Rightarrow> None
     | Some (x, s', clk') \<Rightarrow>
        (case Nexts n s' clk' of
           None \<Rightarrow> None
         | Some (xs, s'', clk'') \<Rightarrow> Some (x # xs, s'', clk'')))"

section \<open>Properties of the codec\<close>

subsection \<open>Bytes, digits and the two tables\<close>



lemma byte_eqI:
  fixes a b :: byte
  assumes "bit a 0 = bit b 0" "bit a 1 = bit b 1" "bit a 2 = bit b 2" "bit a 3 = bit b 3"
    "bit a 4 = bit b 4" "bit a 5 = bit b 5" "bit a 6 = bit b 6" "bit a 7 = bit b 7"
  shows "a = b"
proof (rule bit_word_eqI)
  fix n assume "n < LENGTH(8)"
  then have "n \<in> {0,1,2,3,4,5,6,7}" by auto
  with assms show "bit a n = bit b n" by auto
qed

lemma dec_Encoding_nat:
  assumes "n < 32"
  shows "dec ! unat (of_char (Encoding ! n) :: byte) = of_nat n"
proof -
  have "\<forall>n \<in> set [0..<32]. dec ! unat (of_char (Encoding ! n) :: byte) = of_nat n"
    by code_simp
  with assms show ?thesis by simp
qed

lemma dec_Encoding:
  fixes x :: byte
  assumes "x AND 31 = x"
  shows "dec ! unat (of_char (Encoding ! unat x) :: byte) = x"
proof -
  have "x AND 31 \<le> 31" by (rule word_and_le1)
  with assms have "x \<le> 31" by simp
  then have "unat x < 32" by (simp add: word_le_nat_alt)
  then show ?thesis by (simp add: dec_Encoding_nat)
qed

lemma len16:
  assumes "length (xs :: 'a list) = 16"
  obtains b0 b1 b2 b3 b4 b5 b6 b7 b8 b9 b10 b11 b12 b13 b14 b15 where
   "xs = [b0,b1,b2,b3,b4,b5,b6,b7,b8,b9,b10,b11,b12,b13,b14,b15]"
  using assms by (auto simp: length_Suc_conv numeral_eq_Suc)

lemma bytes_of_string_of_bytes: "bytes_of_string (string_of_bytes b) = b"
proof -
  have "(of_char (char_of (unat w)) :: byte) = w" for w :: byte
  proof -
    have "(of_char (char_of (unat w)) :: byte) = of_nat (of_char (char_of (unat w)))"
      by (simp only: of_nat_of_char)
    also have "\<dots> = w" using unsigned_less [of w, where 'a = nat] by simp
    finally show ?thesis .
  qed
  then show ?thesis by (simp add: bytes_of_string_def string_of_bytes_def map_idI)
qed

lemma bit_mult_2_right:
  fixes a :: byte
  shows "bit (a * 2) n \<longleftrightarrow> n < 8 \<and> n \<noteq> 0 \<and> bit a (n - 1)"
  using bit_double_iff [of a n] by (simp add: mult.commute)

lemma group_mask_0: "drop_bit 5 (a AND 224) AND 31 = (drop_bit 5 (a AND 224) :: byte)"
  by (rule byte_eqI; simp add: bit_simps bit_mult_2_right flip: numeral_2_eq_2 numeral_3_eq_3)

lemma group_mask_1: "(a AND 31) AND 31 = ((a AND 31) :: byte)"
  by (rule byte_eqI; simp add: bit_simps bit_mult_2_right flip: numeral_2_eq_2 numeral_3_eq_3)

lemma group_mask_2: "drop_bit 3 (a AND 248) AND 31 = (drop_bit 3 (a AND 248) :: byte)"
  by (rule byte_eqI; simp add: bit_simps bit_mult_2_right flip: numeral_2_eq_2 numeral_3_eq_3)

lemma group_mask_3: "(push_bit 2 (a AND 7) OR drop_bit 6 (b AND 192)) AND 31 = ((push_bit 2 (a AND 7) OR drop_bit 6 (b AND 192)) :: byte)"
  by (rule byte_eqI; simp add: bit_simps bit_mult_2_right flip: numeral_2_eq_2 numeral_3_eq_3)

lemma group_mask_4: "drop_bit 1 (a AND 62) AND 31 = (drop_bit 1 (a AND 62) :: byte)"
  by (rule byte_eqI; simp add: bit_simps bit_mult_2_right flip: numeral_2_eq_2 numeral_3_eq_3)

lemma group_mask_5: "(push_bit 4 (a AND 1) OR drop_bit 4 (b AND 240)) AND 31 = ((push_bit 4 (a AND 1) OR drop_bit 4 (b AND 240)) :: byte)"
  by (rule byte_eqI; simp add: bit_simps bit_mult_2_right flip: numeral_2_eq_2 numeral_3_eq_3)

lemma group_mask_6: "(push_bit 1 (a AND 15) OR drop_bit 7 (b AND 128)) AND 31 = ((push_bit 1 (a AND 15) OR drop_bit 7 (b AND 128)) :: byte)"
  by (rule byte_eqI; simp add: bit_simps bit_mult_2_right flip: numeral_2_eq_2 numeral_3_eq_3)

lemma group_mask_7: "drop_bit 2 (a AND 124) AND 31 = (drop_bit 2 (a AND 124) :: byte)"
  by (rule byte_eqI; simp add: bit_simps bit_mult_2_right flip: numeral_2_eq_2 numeral_3_eq_3)

lemma group_mask_8: "(push_bit 3 (a AND 3) OR drop_bit 5 (b AND 224)) AND 31 = ((push_bit 3 (a AND 3) OR drop_bit 5 (b AND 224)) :: byte)"
  by (rule byte_eqI; simp add: bit_simps bit_mult_2_right flip: numeral_2_eq_2 numeral_3_eq_3)

lemmas group_lt32 = group_mask_0 group_mask_1 group_mask_2 group_mask_3 group_mask_4 group_mask_5 group_mask_6 group_mask_7 group_mask_8

lemmas dec_Encoding_group = group_lt32 [THEN dec_Encoding]


lemma MarshalTextTo_16:
  "length dst = 26 \<Longrightarrow> MarshalTextTo [b0, b1, b2, b3, b4, b5, b6, b7, b8, b9, b10, b11, b12, b13, b14, b15] dst =
     ([of_char (Encoding ! unat (drop_bit 5 (b0 AND 224))),
      of_char (Encoding ! unat (b0 AND 31)),
      of_char (Encoding ! unat (drop_bit 3 (b1 AND 248))),
      of_char (Encoding ! unat (push_bit 2 (b1 AND 7) OR drop_bit 6 (b2 AND 192))),
      of_char (Encoding ! unat (drop_bit 1 (b2 AND 62))),
      of_char (Encoding ! unat (push_bit 4 (b2 AND 1) OR drop_bit 4 (b3 AND 240))),
      of_char (Encoding ! unat (push_bit 1 (b3 AND 15) OR drop_bit 7 (b4 AND 128))),
      of_char (Encoding ! unat (drop_bit 2 (b4 AND 124))),
      of_char (Encoding ! unat (push_bit 3 (b4 AND 3) OR drop_bit 5 (b5 AND 224))),
      of_char (Encoding ! unat (b5 AND 31)),
      of_char (Encoding ! unat (drop_bit 3 (b6 AND 248))),
      of_char (Encoding ! unat (push_bit 2 (b6 AND 7) OR drop_bit 6 (b7 AND 192))),
      of_char (Encoding ! unat (drop_bit 1 (b7 AND 62))),
      of_char (Encoding ! unat (push_bit 4 (b7 AND 1) OR drop_bit 4 (b8 AND 240))),
      of_char (Encoding ! unat (push_bit 1 (b8 AND 15) OR drop_bit 7 (b9 AND 128))),
      of_char (Encoding ! unat (drop_bit 2 (b9 AND 124))),
      of_char (Encoding ! unat (push_bit 3 (b9 AND 3) OR drop_bit 5 (b10 AND 224))),
      of_char (Encoding ! unat (b10 AND 31)),
      of_char (Encoding ! unat (drop_bit 3 (b11 AND 248))),
      of_char (Encoding ! unat (push_bit 2 (b11 AND 7) OR drop_bit 6 (b12 AND 192))),
      of_char (Encoding ! unat (drop_bit 1 (b12 AND 62))),
      of_char (Encoding ! unat (push_bit 4 (b12 AND 1) OR drop_bit 4 (b13 AND 240))),
      of_char (Encoding ! unat (push_bit 1 (b13 AND 15) OR drop_bit 7 (b14 AND 128))),
      of_char (Encoding ! unat (drop_bit 2 (b14 AND 124))),
      of_char (Encoding ! unat (push_bit 3 (b14 AND 3) OR drop_bit 5 (b15 AND 224))),
      of_char (Encoding ! unat (b15 AND 31))], None)"
  by (auto simp: MarshalTextTo_def EncodedSize_def length_Suc_conv numeral_eq_Suc)

lemma parse_26:
  "parse [c0, c1, c2, c3, c4, c5, c6, c7, c8, c9, c10, c11, c12, c13, c14, c15, c16, c17, c18, c19, c20, c21, c22, c23, c24, c25] strict [z0, z1, z2, z3, z4, z5, z6, z7, z8, z9, z10, z11, z12, z13, z14, z15] =
     (if strict \<and> (dec ! unat c0 = 0xFF \<or> dec ! unat c1 = 0xFF \<or> dec ! unat c2 = 0xFF \<or> dec ! unat c3 = 0xFF \<or> dec ! unat c4 = 0xFF \<or> dec ! unat c5 = 0xFF \<or> dec ! unat c6 = 0xFF \<or> dec ! unat c7 = 0xFF \<or> dec ! unat c8 = 0xFF \<or> dec ! unat c9 = 0xFF \<or> dec ! unat c10 = 0xFF \<or> dec ! unat c11 = 0xFF \<or> dec ! unat c12 = 0xFF \<or> dec ! unat c13 = 0xFF \<or> dec ! unat c14 = 0xFF \<or> dec ! unat c15 = 0xFF \<or> dec ! unat c16 = 0xFF \<or> dec ! unat c17 = 0xFF \<or> dec ! unat c18 = 0xFF \<or> dec ! unat c19 = 0xFF \<or> dec ! unat c20 = 0xFF \<or> dec ! unat c21 = 0xFF \<or> dec ! unat c22 = 0xFF \<or> dec ! unat c23 = 0xFF \<or> dec ! unat c24 = 0xFF \<or> dec ! unat c25 = 0xFF)
      then ([z0, z1, z2, z3, z4, z5, z6, z7, z8, z9, z10, z11, z12, z13, z14, z15], Some ErrInvalidCharacters)
      else if c0 > of_char CHR ''7'' then ([z0, z1, z2, z3, z4, z5, z6, z7, z8, z9, z10, z11, z12, z13, z14, z15], Some ErrOverflow)
      else ([push_bit 5 (dec ! unat c0) OR dec ! unat c1,
        push_bit 3 (dec ! unat c2) OR drop_bit 2 (dec ! unat c3),
        push_bit 6 (dec ! unat c3) OR push_bit 1 (dec ! unat c4) OR drop_bit 4 (dec ! unat c5),
        push_bit 4 (dec ! unat c5) OR drop_bit 1 (dec ! unat c6),
        push_bit 7 (dec ! unat c6) OR push_bit 2 (dec ! unat c7) OR drop_bit 3 (dec ! unat c8),
        push_bit 5 (dec ! unat c8) OR dec ! unat c9,
        push_bit 3 (dec ! unat c10) OR drop_bit 2 (dec ! unat c11),
        push_bit 6 (dec ! unat c11) OR push_bit 1 (dec ! unat c12) OR drop_bit 4 (dec ! unat c13),
        push_bit 4 (dec ! unat c13) OR drop_bit 1 (dec ! unat c14),
        push_bit 7 (dec ! unat c14) OR push_bit 2 (dec ! unat c15) OR drop_bit 3 (dec ! unat c16),
        push_bit 5 (dec ! unat c16) OR dec ! unat c17,
        push_bit 3 (dec ! unat c18) OR drop_bit 2 (dec ! unat c19),
        push_bit 6 (dec ! unat c19) OR push_bit 1 (dec ! unat c20) OR drop_bit 4 (dec ! unat c21),
        push_bit 4 (dec ! unat c21) OR drop_bit 1 (dec ! unat c22),
        push_bit 7 (dec ! unat c22) OR push_bit 2 (dec ! unat c23) OR drop_bit 3 (dec ! unat c24),
        push_bit 5 (dec ! unat c24) OR dec ! unat c25], None))"
  by (simp add: parse_def EncodedSize_def)

lemma group_ne_FF:
  fixes x :: byte
  assumes "x AND 31 = x"
  shows "x \<noteq> 255"
proof
  assume "x = 255"
  with assms show False by simp
qed

lemmas dec_Encoding_ne_FF = group_lt32 [THEN group_ne_FF]

lemma first_char_no_overflow:
  fixes a :: byte
  shows "\<not> of_char CHR ''7'' < (of_char (Encoding ! unat (drop_bit 5 (a AND 224))) :: byte)"
proof -
  have "drop_bit 5 (a AND 224) AND 7 = drop_bit 5 (a AND 224)"
    by (rule byte_eqI; simp add: bit_simps)
  moreover have "drop_bit 5 (a AND 224) AND 7 \<le> 7"
    by (rule word_and_le1)
  ultimately have "unat (drop_bit 5 (a AND 224)) < 8"
    by (simp add: word_le_nat_alt)
  moreover have "\<forall>n \<in> set [0..<8]. \<not> of_char CHR ''7'' < (of_char (Encoding ! n) :: byte)"
    by code_simp
  ultimately show ?thesis by simp
qed

lemma byte_roundtrip_0:
  "push_bit 5 ((drop_bit 5 (a AND 224))) OR (a AND 31) = (a :: byte)"
  by (rule byte_eqI; simp add: bit_simps bit_mult_2_right flip: numeral_2_eq_2 numeral_3_eq_3)

lemma byte_roundtrip_1:
  "push_bit 3 ((drop_bit 3 (a AND 248))) OR drop_bit 2 ((push_bit 2 (a AND 7) OR drop_bit 6 (b AND 192))) = (a :: byte)"
  by (rule byte_eqI; simp add: bit_simps bit_mult_2_right flip: numeral_2_eq_2 numeral_3_eq_3)

lemma byte_roundtrip_2:
  "push_bit 6 ((push_bit 2 (a AND 7) OR drop_bit 6 (b AND 192))) OR push_bit 1 ((drop_bit 1 (b AND 62))) OR drop_bit 4 ((push_bit 4 (b AND 1) OR drop_bit 4 (c AND 240))) = (b :: byte)"
  by (rule byte_eqI; simp add: bit_simps bit_mult_2_right flip: numeral_2_eq_2 numeral_3_eq_3)

lemma byte_roundtrip_3:
  "push_bit 4 ((push_bit 4 (b AND 1) OR drop_bit 4 (c AND 240))) OR drop_bit 1 ((push_bit 1 (c AND 15) OR drop_bit 7 (d AND 128))) = (c :: byte)"
  by (rule byte_eqI; simp add: bit_simps bit_mult_2_right flip: numeral_2_eq_2 numeral_3_eq_3)

lemma byte_roundtrip_4:
  "push_bit 7 ((push_bit 1 (c AND 15) OR drop_bit 7 (d AND 128))) OR push_bit 2 ((drop_bit 2 (d AND 124))) OR drop_bit 3 ((push_bit 3 (d AND 3) OR drop_bit 5 (e AND 224))) = (d :: byte)"
  by (rule byte_eqI; simp add: bit_simps bit_mult_2_right flip: numeral_2_eq_2 numeral_3_eq_3)

lemma byte_roundtrip_5:
  "push_bit 5 ((push_bit 3 (d AND 3) OR drop_bit 5 (e AND 224))) OR (e AND 31) = (e :: byte)"
  by (rule byte_eqI; simp add: bit_simps bit_mult_2_right flip: numeral_2_eq_2 numeral_3_eq_3)

lemmas byte_roundtrip = byte_roundtrip_0 byte_roundtrip_1 byte_roundtrip_2 byte_roundtrip_3 byte_roundtrip_4 byte_roundtrip_5

lemma parse_MarshalTextTo:
  assumes "length dst = 26"
  shows "parse (fst (MarshalTextTo [b0, b1, b2, b3, b4, b5, b6, b7, b8, b9, b10, b11, b12, b13, b14, b15] dst)) strict [z0, z1, z2, z3, z4, z5, z6, z7, z8, z9, z10, z11, z12, z13, z14, z15] = ([b0, b1, b2, b3, b4, b5, b6, b7, b8, b9, b10, b11, b12, b13, b14, b15], None)"
  by (simp only: MarshalTextTo_16 [OF assms] fst_conv parse_26 dec_Encoding_group
      dec_Encoding_ne_FF first_char_no_overflow byte_roundtrip simp_thms if_False)

lemma length_zero_SFID: "length zero_SFID = 16"
  by (simp add: zero_SFID_def)

lemma length_MarshalTextTo: "length (fst (MarshalTextTo sfid dst)) = length dst"
  by (simp add: MarshalTextTo_def)

lemma parse_MarshalTextTo_any:
  assumes "length sfid = 16" and "length dst = 26" and "length z = 16"
  shows "parse (fst (MarshalTextTo sfid dst)) strict z = (sfid, None)"
proof -
  from assms(1) obtain b0 b1 b2 b3 b4 b5 b6 b7 b8 b9 b10 b11 b12 b13 b14 b15
    where sfid: "sfid = [b0, b1, b2, b3, b4, b5, b6, b7, b8, b9, b10, b11, b12, b13, b14, b15]" by (rule len16)
  from assms(3) obtain z0 z1 z2 z3 z4 z5 z6 z7 z8 z9 z10 z11 z12 z13 z14 z15
    where z: "z = [z0, z1, z2, z3, z4, z5, z6, z7, z8, z9, z10, z11, z12, z13, z14, z15]"
    by (rule len16)
  show ?thesis unfolding sfid z by (rule parse_MarshalTextTo [OF assms(2)])
qed

text \<open>
  C1. Round trip: for every identifier, \<open>UnmarshalBinary\<close> of its binary encoding and
  \<open>Parse\<close> of its text encoding (\<open>String\<close>, \<open>MarshalText\<close>) give the identifier back with
  no error, so the text encoding never meets the size, overflow or character check of
  the parser, strict or not.
\<close>

theorem round_trip:
  assumes "length sfid = 16" and "length z = 16"
  shows "MarshalBinary sfid = (sfid, None) \<and>
         UnmarshalBinary z (fst (MarshalBinary sfid)) = (sfid, None) \<and>
         Parse (String sfid) = (sfid, None) \<and>
         ParseStrict (String sfid) = (sfid, None) \<and>
         snd (MarshalText sfid) = None \<and>
         UnmarshalText z (fst (MarshalText sfid)) = (sfid, None)"
proof -
  have bin: "MarshalBinary sfid = (sfid, None)"
    by (simp add: MarshalBinary_def MarshalBinaryTo_def)
  have unbin: "UnmarshalBinary z (fst (MarshalBinary sfid)) = (sfid, None)"
    using assms by (simp add: bin UnmarshalBinary_def)
  have len: "length (replicate EncodedSize (0::byte)) = 26"
    by (simp add: EncodedSize_def)
  have text_rt: "parse (bytes_of_string (String sfid)) st zero_SFID = (sfid, None)" for st
    unfolding String_def bytes_of_string_of_bytes
    by (rule parse_MarshalTextTo_any [OF assms(1) len length_zero_SFID])
  have mt: "snd (MarshalText sfid) = None"
    by (simp add: MarshalText_def MarshalTextTo_def)
  have ut: "UnmarshalText z (fst (MarshalText sfid)) = (sfid, None)"
    unfolding UnmarshalText_def MarshalText_def
    by (rule parse_MarshalTextTo_any [OF assms(1) len assms(2)])
  from bin unbin text_rt mt ut show ?thesis
    by (simp add: Parse_def ParseStrict_def)
qed

theorem round_trip_witness:
  "length [0x01, 0x8F, 0x3A, 0x7C, 0x55, 0xE2, 0x00, 0x64, 0x00, 0x07, 0x5B, 0xCD, 0x15, 0x00, 0x00, 0x2A :: byte] = 16 \<and>
   length zero_SFID = 16 \<and>
   Parse (String [0x01, 0x8F, 0x3A, 0x7C, 0x55, 0xE2, 0x00, 0x64, 0x00, 0x07, 0x5B, 0xCD, 0x15, 0x00, 0x00, 0x2A]) =
     ([0x01, 0x8F, 0x3A, 0x7C, 0x55, 0xE2, 0x00, 0x64, 0x00, 0x07, 0x5B, 0xCD, 0x15, 0x00, 0x00, 0x2A], None) \<and>
   UnmarshalBinary zero_SFID
     (fst (MarshalBinary [0x01, 0x8F, 0x3A, 0x7C, 0x55, 0xE2, 0x00, 0x64, 0x00, 0x07, 0x5B, 0xCD, 0x15, 0x00, 0x00, 0x2A])) =
     ([0x01, 0x8F, 0x3A, 0x7C, 0x55, 0xE2, 0x00, 0x64, 0x00, 0x07, 0x5B, 0xCD, 0x15, 0x00, 0x00, 0x2A], None)"
proof -
  have h1: "length [0x01, 0x8F, 0x3A, 0x7C, 0x55, 0xE2, 0x00, 0x64, 0x00, 0x07, 0x5B, 0xCD, 0x15, 0x00, 0x00, 0x2A :: byte] = 16"
    by simp
  have h2: "length zero_SFID = 16"
    by (rule length_zero_SFID)
  from round_trip [OF h1 h2] h1 h2 show ?thesis by blast
qed

lemma maxTime_value: "maxTime = 0xFFFFFFFFFFFF"
  by (simp add: maxTime_def Time_def)

lemma maxSN_value: "maxSN = 0xFFFFFF"
  by (simp add: maxSN_def)

lemma bytes_of_string_nth: "i < length s \<Longrightarrow> bytes_of_string s ! i = of_char (s ! i)"
  by (simp add: bytes_of_string_def)

lemma length_bytes_of_string: "length (bytes_of_string s) = length s"
  by (simp add: bytes_of_string_def)

subsection \<open>Errors of the parser and of the setters\<close>

text \<open>
  C6. For every string \<open>s\<close>, \<open>Parse s\<close> fails with the size error exactly when the length of
  \<open>s\<close> is not 26; otherwise it fails with the overflow error exactly when the first
  character is above \<open>'7'\<close>; otherwise it succeeds. It never returns the character
  error, and a string that starts with \<open>'8'\<close> and has 25 digits after it gives the overflow
  error.
\<close>

theorem Parse_errors:
  "snd (Parse s) =
     (if length s \<noteq> 26 then Some ErrDataSize
      else if (of_char CHR ''7'' :: byte) < of_char (s ! 0) then Some ErrOverflow
      else None) \<and>
   snd (Parse s) \<noteq> Some ErrInvalidCharacters \<and>
   snd (Parse ''80123456789ABCDEFGHJKMNPQR'') = Some ErrOverflow"
  by (simp add: Parse_def parse_def EncodedSize_def length_bytes_of_string bytes_of_string_nth)

lemma bit_below:
  fixes w :: "'a::len word"
  assumes "w < 2 ^ k" and "bit w n"
  shows "n < k"
proof -
  from assms(1) have "w AND mask k = w"
    by (rule less_mask_eq)
  with assms(2) have "bit (w AND mask k) n" by (simp only:)
  then show ?thesis by (simp add: bit_and_iff bit_mask_iff)
qed

lemma bit_byte_at:
  fixes w :: "'a::len word"
  shows "bit (push_bit k (ucast (ucast (drop_bit k w) :: byte)) :: 'a word) n \<longleftrightarrow>
           k \<le> n \<and> n < k + 8 \<and> bit w n"
proof (cases "k \<le> n")
  case True
  then obtain m where n: "n = k + m" by (auto simp: le_iff_add)
  show ?thesis
    by (auto simp: n bit_simps add.commute dest: bit_imp_le_length)
next
  case False
  then show ?thesis by (simp add: bit_simps)
qed

lemma bit_byte_0:
  fixes w :: "'a::len word"
  shows "bit (ucast (ucast w :: byte) :: 'a word) n \<longleftrightarrow> n < 8 \<and> bit w n"
  by (auto simp: bit_simps dest: bit_imp_le_length)

lemma Node_bytes:
  fixes nodeid :: "16 word"
  shows "push_bit 8 (ucast (ucast (drop_bit 8 nodeid) :: byte)) OR ucast (ucast nodeid :: byte) = nodeid"
proof (rule bit_word_eqI)
  fix n assume "n < LENGTH(16)"
  then show "bit (push_bit 8 (ucast (ucast (drop_bit 8 nodeid) :: byte)) OR ucast (ucast nodeid :: byte) :: 16 word) n
    = bit nodeid n"
    by (simp only: bit_or_iff bit_byte_at bit_byte_0) (simp, linarith)
qed

lemma Time_bytes:
  fixes ms :: "64 word"
  assumes "ms \<le> maxTime"
  shows "(ucast (ucast ms :: byte) OR push_bit 8 (ucast (ucast (drop_bit 8 ms) :: byte)) OR
     push_bit 16 (ucast (ucast (drop_bit 16 ms) :: byte)) OR
     push_bit 24 (ucast (ucast (drop_bit 24 ms) :: byte)) OR
     push_bit 32 (ucast (ucast (drop_bit 32 ms) :: byte)) OR
     push_bit 40 (ucast (ucast (drop_bit 40 ms) :: byte)) :: 64 word) = ms"
  (is "?l = ms")
proof (rule bit_word_eqI)
  fix n
  from assms have "ms < 2 ^ 48"
    by (simp add: maxTime_value word_less_nat_alt word_le_nat_alt)
  then have hi: "bit ms n \<Longrightarrow> n < 48"
    by (rule bit_below)
  have "bit ?l n = (bit ms n \<and> n < 48)"
    by (simp only: bit_or_iff bit_byte_at bit_byte_0) (simp, linarith)
  with hi show "bit ?l n = bit ms n" by blast
qed

lemma Nonce_bytes:
  fixes n :: "64 word"
  assumes "n \<le> MaxNonce"
  shows "(push_bit 32 (ucast (ucast (drop_bit 32 n) :: byte)) OR
     push_bit 24 (ucast (ucast (drop_bit 24 n) :: byte)) OR
     push_bit 16 (ucast (ucast (drop_bit 16 n) :: byte)) OR
     push_bit 8 (ucast (ucast (drop_bit 8 n) :: byte)) OR ucast (ucast n :: byte) :: 64 word) = n"
  (is "?l = n")
proof (rule bit_word_eqI)
  fix i
  from assms have "n < 2 ^ 40"
    by (simp add: MaxNonce_def word_less_nat_alt word_le_nat_alt)
  then have hi: "bit n i \<Longrightarrow> i < 40"
    by (rule bit_below)
  have "bit ?l i = (bit n i \<and> i < 40)"
    by (simp only: bit_or_iff bit_byte_at bit_byte_0) (simp, linarith)
  with hi show "bit ?l i = bit n i" by blast
qed

lemma SN_bytes:
  fixes k :: "32 word"
  assumes "k \<le> maxSN"
  shows "(push_bit 16 (ucast (ucast (drop_bit 16 k) :: byte)) OR
     push_bit 8 (ucast (ucast (drop_bit 8 k) :: byte)) OR ucast (ucast k :: byte) :: 32 word) = k"
  (is "?l = k")
proof (rule bit_word_eqI)
  fix i
  from assms have "k < 2 ^ 24"
    by (simp add: maxSN_value word_less_nat_alt word_le_nat_alt)
  then have hi: "bit k i \<Longrightarrow> i < 24"
    by (rule bit_below)
  have "bit ?l i = (bit k i \<and> i < 24)"
    by (simp only: bit_or_iff bit_byte_at bit_byte_0) (simp, linarith)
  with hi show "bit ?l i = bit k i" by blast
qed

lemma Time_SetTime:
  assumes "length sfid = 16" and "ms \<le> maxTime"
  shows "Time (fst (SetTime sfid ms)) = ms"
  using assms by (simp add: SetTime_def Time_def not_less [symmetric] Time_bytes)

lemma Node_SetNode:
  assumes "length sfid = 16"
  shows "Node (SetNode sfid nodeid) = nodeid"
  using assms by (simp add: SetNode_def Node_def Node_bytes)

lemma Nonce_SetNonce:
  assumes "length sfid = 16" and "n \<le> MaxNonce"
  shows "Nonce (fst (SetNonce sfid n)) = n"
  using assms by (simp add: SetNonce_def Nonce_def not_less [symmetric] Nonce_bytes)

lemma SN_SetSN:
  assumes "length sfid = 16" and "k \<le> maxSN"
  shows "SN (fst (SetSN sfid k)) = k"
  using assms by (simp add: SetSN_def SN_def not_less [symmetric] SN_bytes)

text \<open>
  C7. Each range-checked operation fails with its range error exactly when the value is
  above the largest value of its field, and succeeds otherwise, so also at the largest
  value: \<open>SetTime\<close> at \<open>2^48 - 1\<close>, \<open>SetNonce\<close> and \<open>NewSnowflakePro\<close> at \<open>2^40 - 1\<close>,
  \<open>SetSN\<close> at \<open>2^24 - 1\<close>. \<open>SetNode\<close> has no error: it stores every 16-bit value.
\<close>

theorem range_errors:
  "(snd (SetTime sfid ms) = Some ErrBigTime) = (2 ^ 48 - 1 < unat ms) \<and>
   (snd (SetTime sfid ms) = None) = (unat ms \<le> 2 ^ 48 - 1) \<and>
   (snd (SetNonce sfid n) = Some ErrBigNonce) = (2 ^ 40 - 1 < unat n) \<and>
   (snd (SetNonce sfid n) = None) = (unat n \<le> 2 ^ 40 - 1) \<and>
   (snd (SetSN sfid k) = Some ErrBigSN) = (2 ^ 24 - 1 < unat k) \<and>
   (snd (SetSN sfid k) = None) = (unat k \<le> 2 ^ 24 - 1) \<and>
   (NewSnowflakePro nodeid n = Inl ErrBigNonce) = (2 ^ 40 - 1 < unat n) \<and>
   (NewSnowflakePro nodeid n = Inr \<lparr>sn = 0, node = nodeid, nonce = n, tms = 0\<rparr>) =
     (unat n \<le> 2 ^ 40 - 1) \<and>
   (length sfid = 16 \<longrightarrow> Node (SetNode sfid nodeid) = nodeid)"
  by (simp add: SetTime_def SetNonce_def SetSN_def NewSnowflakePro_def maxTime_value MaxNonce_def
      maxSN_value word_less_nat_alt word_le_nat_alt not_less Node_SetNode)

theorem range_errors_witness:
  "length zero_SFID = 16 \<and>
   snd (SetTime zero_SFID 0xFFFFFFFFFFFF) = None \<and>
   snd (SetTime zero_SFID 0x1000000000000) = Some ErrBigTime \<and>
   snd (SetNonce zero_SFID 0xFFFFFFFFFF) = None \<and>
   NewSnowflakePro 0xFFFF 0xFFFFFFFFFF =
     Inr \<lparr>sn = 0, node = 0xFFFF, nonce = 0xFFFFFFFFFF, tms = 0\<rparr> \<and>
   Node (SetNode zero_SFID 0xFFFF) = 0xFFFF"
  using range_errors [of zero_SFID "0xFFFFFFFFFFFF" "0xFFFFFFFFFF" 0 "0xFFFF"]
    range_errors [of zero_SFID "0x1000000000000" "0xFFFFFFFFFF" 0 "0xFFFF"]
  by (simp add: length_zero_SFID)

text \<open>
  C8. Each setter writes only the bytes of its own field: after \<open>SetTime\<close> the values of
  \<open>Node\<close>, \<open>Nonce\<close> and \<open>SN\<close> are the ones before the call and the bytes from index 6 on
  are unchanged, and likewise for \<open>SetNode\<close> (bytes 6 and 7), \<open>SetNonce\<close> (bytes 8 to 12)
  and \<open>SetSN\<close> (bytes 13 to 15). This holds for every argument, in range or not.
\<close>

theorem setters_frame:
  "Node (fst (SetTime sfid ms)) = Node sfid \<and>
   Nonce (fst (SetTime sfid ms)) = Nonce sfid \<and>
   SN (fst (SetTime sfid ms)) = SN sfid \<and>
   drop 6 (fst (SetTime sfid ms)) = drop 6 sfid \<and>
   Time (SetNode sfid nodeid) = Time sfid \<and>
   Nonce (SetNode sfid nodeid) = Nonce sfid \<and>
   SN (SetNode sfid nodeid) = SN sfid \<and>
   take 6 (SetNode sfid nodeid) = take 6 sfid \<and>
   drop 8 (SetNode sfid nodeid) = drop 8 sfid \<and>
   Time (fst (SetNonce sfid n)) = Time sfid \<and>
   Node (fst (SetNonce sfid n)) = Node sfid \<and>
   SN (fst (SetNonce sfid n)) = SN sfid \<and>
   take 8 (fst (SetNonce sfid n)) = take 8 sfid \<and>
   drop 13 (fst (SetNonce sfid n)) = drop 13 sfid \<and>
   Time (fst (SetSN sfid k)) = Time sfid \<and>
   Node (fst (SetSN sfid k)) = Node sfid \<and>
   Nonce (fst (SetSN sfid k)) = Nonce sfid \<and>
   take 13 (fst (SetSN sfid k)) = take 13 sfid"
  by (simp add: SetTime_def SetNode_def SetNonce_def SetSN_def Time_def Node_def Nonce_def SN_def)

text \<open>
  C10. A failing operation leaves its destination as it was: whenever \<open>parse\<close> (reached
  through \<open>Parse\<close>, \<open>ParseStrict\<close>, \<open>UnmarshalText\<close> or \<open>Scan\<close> of a string),
  \<open>UnmarshalBinary\<close>, \<open>SetTime\<close>, \<open>SetNonce\<close> or \<open>SetSN\<close> returns an error, every byte of
  the destination identifier is the one from before the call.
\<close>

theorem failure_leaves_destination:
  "(snd (parse v st sfid) \<noteq> None \<longrightarrow> fst (parse v st sfid) = sfid) \<and>
   (snd (Parse s) \<noteq> None \<longrightarrow> fst (Parse s) = zero_SFID) \<and>
   (snd (ParseStrict s) \<noteq> None \<longrightarrow> fst (ParseStrict s) = zero_SFID) \<and>
   (snd (UnmarshalText sfid v) \<noteq> None \<longrightarrow> fst (UnmarshalText sfid v) = sfid) \<and>
   (snd (Scan sfid (SrcString s)) \<noteq> None \<longrightarrow> fst (Scan sfid (SrcString s)) = sfid) \<and>
   (snd (UnmarshalBinary sfid v) \<noteq> None \<longrightarrow> fst (UnmarshalBinary sfid v) = sfid) \<and>
   (snd (SetTime sfid ms) \<noteq> None \<longrightarrow> fst (SetTime sfid ms) = sfid) \<and>
   (snd (SetNonce sfid n) \<noteq> None \<longrightarrow> fst (SetNonce sfid n) = sfid) \<and>
   (snd (SetSN sfid k) \<noteq> None \<longrightarrow> fst (SetSN sfid k) = sfid)"
proof -
  have p: "snd (parse v st sfid) \<noteq> None \<longrightarrow> fst (parse v st sfid) = sfid" for v st sfid
    by (simp add: parse_def)
  show ?thesis
    by (simp add: p Parse_def ParseStrict_def UnmarshalText_def)
       (simp add: UnmarshalBinary_def SetTime_def SetNonce_def SetSN_def)
qed

theorem failure_leaves_destination_witness:
  "snd (parse [] True [0x01, 0x8F, 0x3A, 0x7C, 0x55, 0xE2, 0x00, 0x64, 0x00, 0x07, 0x5B, 0xCD, 0x15, 0x00, 0x00, 0x2A]) \<noteq> None \<and> fst (parse [] True [0x01, 0x8F, 0x3A, 0x7C, 0x55, 0xE2, 0x00, 0x64, 0x00, 0x07, 0x5B, 0xCD, 0x15, 0x00, 0x00, 0x2A]) = [0x01, 0x8F, 0x3A, 0x7C, 0x55, 0xE2, 0x00, 0x64, 0x00, 0x07, 0x5B, 0xCD, 0x15, 0x00, 0x00, 0x2A] \<and>
   snd (Parse ''Z0000000000000000000000000'') \<noteq> None \<and>
   fst (Parse ''Z0000000000000000000000000'') = zero_SFID \<and>
   snd (ParseStrict ''Z0000000000000000000000000'') \<noteq> None \<and>
   fst (ParseStrict ''Z0000000000000000000000000'') = zero_SFID \<and>
   snd (UnmarshalText [0x01, 0x8F, 0x3A, 0x7C, 0x55, 0xE2, 0x00, 0x64, 0x00, 0x07, 0x5B, 0xCD, 0x15, 0x00, 0x00, 0x2A] []) \<noteq> None \<and> fst (UnmarshalText [0x01, 0x8F, 0x3A, 0x7C, 0x55, 0xE2, 0x00, 0x64, 0x00, 0x07, 0x5B, 0xCD, 0x15, 0x00, 0x00, 0x2A] []) = [0x01, 0x8F, 0x3A, 0x7C, 0x55, 0xE2, 0x00, 0x64, 0x00, 0x07, 0x5B, 0xCD, 0x15, 0x00, 0x00, 0x2A] \<and>
   snd (Scan [0x01, 0x8F, 0x3A, 0x7C, 0x55, 0xE2, 0x00, 0x64, 0x00, 0x07, 0x5B, 0xCD, 0x15, 0x00, 0x00, 0x2A] (SrcString ''Z0000000000000000000000000'')) \<noteq> None \<and>
   fst (Scan [0x01, 0x8F, 0x3A, 0x7C, 0x55, 0xE2, 0x00, 0x64, 0x00, 0x07, 0x5B, 0xCD, 0x15, 0x00, 0x00, 0x2A] (SrcString ''Z0000000000000000000000000'')) = [0x01, 0x8F, 0x3A, 0x7C, 0x55, 0xE2, 0x00, 0x64, 0x00, 0x07, 0x5B, 0xCD, 0x15, 0x00, 0x00, 0x2A] \<and>
   snd (UnmarshalBinary [0x01, 0x8F, 0x3A, 0x7C, 0x55, 0xE2, 0x00, 0x64, 0x00, 0x07, 0x5B, 0xCD, 0x15, 0x00, 0x00, 0x2A] []) \<noteq> None \<and> fst (UnmarshalBinary [0x01, 0x8F, 0x3A, 0x7C, 0x55, 0xE2, 0x00, 0x64, 0x00, 0x07, 0x5B, 0xCD, 0x15, 0x00, 0x00, 0x2A] []) = [0x01, 0x8F, 0x3A, 0x7C, 0x55, 0xE2, 0x00, 0x64, 0x00, 0x07, 0x5B, 0xCD, 0x15, 0x00, 0x00, 0x2A] \<and>
   snd (SetTime [0x01, 0x8F, 0x3A, 0x7C, 0x55, 0xE2, 0x00, 0x64, 0x00, 0x07, 0x5B, 0xCD, 0x15, 0x00, 0x00, 0x2A] 0x1000000000000) \<noteq> None \<and> fst (SetTime [0x01, 0x8F, 0x3A, 0x7C, 0x55, 0xE2, 0x00, 0x64, 0x00, 0x07, 0x5B, 0xCD, 0x15, 0x00, 0x00, 0x2A] 0x1000000000000) = [0x01, 0x8F, 0x3A, 0x7C, 0x55, 0xE2, 0x00, 0x64, 0x00, 0x07, 0x5B, 0xCD, 0x15, 0x00, 0x00, 0x2A] \<and>
   snd (SetNonce [0x01, 0x8F, 0x3A, 0x7C, 0x55, 0xE2, 0x00, 0x64, 0x00, 0x07, 0x5B, 0xCD, 0x15, 0x00, 0x00, 0x2A] 0x10000000000) \<noteq> None \<and> fst (SetNonce [0x01, 0x8F, 0x3A, 0x7C, 0x55, 0xE2, 0x00, 0x64, 0x00, 0x07, 0x5B, 0xCD, 0x15, 0x00, 0x00, 0x2A] 0x10000000000) = [0x01, 0x8F, 0x3A, 0x7C, 0x55, 0xE2, 0x00, 0x64, 0x00, 0x07, 0x5B, 0xCD, 0x15, 0x00, 0x00, 0x2A] \<and>
   snd (SetSN [0x01, 0x8F, 0x3A, 0x7C, 0x55, 0xE2, 0x00, 0x64, 0x00, 0x07, 0x5B, 0xCD, 0x15, 0x00, 0x00, 0x2A] 0x1000000) \<noteq> None \<and> fst (SetSN [0x01, 0x8F, 0x3A, 0x7C, 0x55, 0xE2, 0x00, 0x64, 0x00, 0x07, 0x5B, 0xCD, 0x15, 0x00, 0x00, 0x2A] 0x1000000) = [0x01, 0x8F, 0x3A, 0x7C, 0x55, 0xE2, 0x00, 0x64, 0x00, 0x07, 0x5B, 0xCD, 0x15, 0x00, 0x00, 0x2A]"
proof -
  have "snd (parse [] True [0x01, 0x8F, 0x3A, 0x7C, 0x55, 0xE2, 0x00, 0x64, 0x00, 0x07, 0x5B, 0xCD, 0x15, 0x00, 0x00, 0x2A]) \<noteq> None"
    and "snd (Parse ''Z0000000000000000000000000'') \<noteq> None"
    and "snd (ParseStrict ''Z0000000000000000000000000'') \<noteq> None"
    and "snd (UnmarshalText [0x01, 0x8F, 0x3A, 0x7C, 0x55, 0xE2, 0x00, 0x64, 0x00, 0x07, 0x5B, 0xCD, 0x15, 0x00, 0x00, 0x2A] []) \<noteq> None"
    and "snd (Scan [0x01, 0x8F, 0x3A, 0x7C, 0x55, 0xE2, 0x00, 0x64, 0x00, 0x07, 0x5B, 0xCD, 0x15, 0x00, 0x00, 0x2A] (SrcString ''Z0000000000000000000000000'')) \<noteq> None"
    and "snd (UnmarshalBinary [0x01, 0x8F, 0x3A, 0x7C, 0x55, 0xE2, 0x00, 0x64, 0x00, 0x07, 0x5B, 0xCD, 0x15, 0x00, 0x00, 0x2A] []) \<noteq> None"
    and "snd (SetTime [0x01, 0x8F, 0x3A, 0x7C, 0x55, 0xE2, 0x00, 0x64, 0x00, 0x07, 0x5B, 0xCD, 0x15, 0x00, 0x00, 0x2A] 0x1000000000000) \<noteq> None"
    and "snd (SetNonce [0x01, 0x8F, 0x3A, 0x7C, 0x55, 0xE2, 0x00, 0x64, 0x00, 0x07, 0x5B, 0xCD, 0x15, 0x00, 0x00, 0x2A] 0x10000000000) \<noteq> None"
    and "snd (SetSN [0x01, 0x8F, 0x3A, 0x7C, 0x55, 0xE2, 0x00, 0x64, 0x00, 0x07, 0x5B, 0xCD, 0x15, 0x00, 0x00, 0x2A] 0x1000000) \<noteq> None"
    by (simp_all add: parse_def Parse_def ParseStrict_def UnmarshalText_def UnmarshalBinary_def
        EncodedSize_def bytes_of_string_def dec_def SetTime_def SetNonce_def SetSN_def
        maxTime_value MaxNonce_def maxSN_value)
  with failure_leaves_destination [of "[]" True "[0x01, 0x8F, 0x3A, 0x7C, 0x55, 0xE2, 0x00, 0x64, 0x00, 0x07, 0x5B, 0xCD, 0x15, 0x00, 0x00, 0x2A]"
      "''Z0000000000000000000000000''" "0x1000000000000" "0x10000000000" "0x1000000"]
  show ?thesis by blast
qed

lemma len26:
  assumes "length (xs :: 'a list) = 26"
  obtains c0 c1 c2 c3 c4 c5 c6 c7 c8 c9 c10 c11 c12 c13 c14 c15 c16 c17 c18 c19 c20 c21 c22 c23 c24 c25
    where "xs = [c0, c1, c2, c3, c4, c5, c6, c7, c8, c9, c10, c11, c12, c13, c14, c15, c16, c17, c18, c19, c20, c21, c22, c23, c24, c25]"
  using assms by (auto simp: length_Suc_conv numeral_eq_Suc)

lemma of_char_less_256: "(of_char c :: nat) < 256"
proof -
  have "(of_char c :: nat) mod 256 = of_char c" by (rule of_char_mod_256)
  moreover have "(of_char c :: nat) mod 256 < 256" by simp
  ultimately show ?thesis by simp
qed

lemma unat_of_char: "unat (of_char c :: byte) = of_char c"
proof -
  have "unat (of_char c :: byte) = unat (of_nat (of_char c) :: byte)"
    by (simp only: of_nat_of_char)
  also have "\<dots> = of_char c"
    using of_char_less_256 [of c] by (simp add: unat_of_nat)
  finally show ?thesis .
qed

lemma dec_digits:
  "filter (\<lambda>n. dec ! n \<noteq> 0xFF) [0..<256] =
     map of_char (Encoding @ ''abcdefghjkmnpqrstvwxyz'')"
  by code_simp

lemma dec_FF_iff:
  "(dec ! unat (of_char c :: byte) = 0xFF) =
     (c \<notin> set Encoding \<and> c \<notin> set ''abcdefghjkmnpqrstvwxyz'')"
proof -
  have "(dec ! of_char c \<noteq> 0xFF) =
      ((of_char c :: nat) \<in> set (filter (\<lambda>n. dec ! n \<noteq> 0xFF) [0..<256]))"
    using of_char_less_256 [of c] by simp
  also have "\<dots> = ((of_char c :: nat) \<in> of_char ` set (Encoding @ ''abcdefghjkmnpqrstvwxyz''))"
    by (simp only: dec_digits set_map)
  also have "\<dots> = (c \<in> set (Encoding @ ''abcdefghjkmnpqrstvwxyz''))"
    by (simp only: inj_image_mem_iff [OF inj_of_char])
  finally show ?thesis unfolding unat_of_char set_append by blast
qed

lemma parse_strict_check:
  assumes "length v = 26"
  shows "(snd (parse v True sfid) = Some ErrInvalidCharacters) = (\<exists>b \<in> set v. dec ! unat b = 0xFF)"
proof -
  from assms obtain c0 c1 c2 c3 c4 c5 c6 c7 c8 c9 c10 c11 c12 c13 c14 c15 c16 c17 c18 c19 c20 c21 c22 c23 c24 c25
    where v: "v = [c0, c1, c2, c3, c4, c5, c6, c7, c8, c9, c10, c11, c12, c13, c14, c15, c16, c17, c18, c19, c20, c21, c22, c23, c24, c25]" by (rule len26)
  show ?thesis
    unfolding v by (simp add: parse_def EncodedSize_def)
qed

lemma zero_SFID_list: "zero_SFID = [0, 0, 0, 0, 0, 0, 0, 0, 0, 0, 0, 0, 0, 0, 0, 0]"
  by (simp add: zero_SFID_def numeral_eq_Suc)

subsection \<open>The strict parser\<close>

lemma ParseStrict_digits_only:
  assumes "length s = 26" and "length s' = 26"
    and "map (\<lambda>c. dec ! unat (of_char c :: byte)) s' = map (\<lambda>c. dec ! unat (of_char c :: byte)) s"
    and "(of_char (s ! 0) :: byte) \<le> of_char CHR ''7''"
    and "(of_char (s' ! 0) :: byte) \<le> of_char CHR ''7''"
  shows "ParseStrict s' = ParseStrict s"
proof -
  from assms(1) obtain c0 c1 c2 c3 c4 c5 c6 c7 c8 c9 c10 c11 c12 c13 c14 c15 c16 c17 c18 c19 c20 c21 c22 c23 c24 c25 where s: "s = [c0, c1, c2, c3, c4, c5, c6, c7, c8, c9, c10, c11, c12, c13, c14, c15, c16, c17, c18, c19, c20, c21, c22, c23, c24, c25]" by (rule len26)
  from assms(2) obtain d0 d1 d2 d3 d4 d5 d6 d7 d8 d9 d10 d11 d12 d13 d14 d15 d16 d17 d18 d19 d20 d21 d22 d23 d24 d25 where s': "s' = [d0, d1, d2, d3, d4, d5, d6, d7, d8, d9, d10, d11, d12, d13, d14, d15, d16, d17, d18, d19, d20, d21, d22, d23, d24, d25]" by (rule len26)
  from assms(3,4,5) show ?thesis
    unfolding s s'
    by (simp add: ParseStrict_def parse_def EncodedSize_def bytes_of_string_def not_less [symmetric])
qed

text \<open>
  The table \<open>dec\<close> has a digit for the lower-case letters too, so \<open>ParseStrict\<close> accepts
  them: the text below has 26 characters, starts with \<open>'0'\<close> and ends with \<open>'a'\<close>, which is
  not a symbol of \<open>Encoding\<close>, and it parses without an error.
\<close>

theorem ParseStrict_lowercase_counterexample:
  "length ''0000000000000000000000000a'' = 26 \<and>
   (of_char (''0000000000000000000000000a'' ! 0) :: byte) \<le> of_char CHR ''7'' \<and>
   CHR ''a'' \<in> set ''0000000000000000000000000a'' \<and>
   CHR ''a'' \<notin> set Encoding \<and>
   ParseStrict ''0000000000000000000000000a'' =
     ([0, 0, 0, 0, 0, 0, 0, 0, 0, 0, 0, 0, 0, 0, 0, 0x0A], None)"
  by (simp add: ParseStrict_def parse_def EncodedSize_def bytes_of_string_def zero_SFID_list
      dec_def Encoding_def)

text \<open>
  C4 (amended). For every text of 26 characters whose first character is not above
  \<open>'7'\<close>, \<open>ParseStrict\<close> fails with the character error exactly when one of the characters
  is neither a symbol of \<open>Encoding\<close> nor one of the lower-case letters
  \<open>abcdefghjkmnpqrstvwxyz\<close>, and succeeds otherwise. The table \<open>dec\<close> gives each of these
  lower-case letters the digit of its upper-case form, and the result of \<open>ParseStrict\<close>
  depends on the characters only through their digits in \<open>dec\<close>, so decoding does not
  depend on the case of the letters.
\<close>

theorem ParseStrict_invalid_characters:
  assumes "length s = 26" and "(of_char (s ! 0) :: byte) \<le> of_char CHR ''7''"
  shows "(snd (ParseStrict s) = Some ErrInvalidCharacters) =
           (\<exists>c \<in> set s. c \<notin> set Encoding \<and> c \<notin> set ''abcdefghjkmnpqrstvwxyz'') \<and>
         (snd (ParseStrict s) = None) =
           (\<forall>c \<in> set s. c \<in> set Encoding \<or> c \<in> set ''abcdefghjkmnpqrstvwxyz'') \<and>
         map (\<lambda>c. dec ! unat (of_char c :: byte)) ''abcdefghjkmnpqrstvwxyz'' =
           map (\<lambda>c. dec ! unat (of_char c :: byte)) ''ABCDEFGHJKMNPQRSTVWXYZ'' \<and>
         (\<forall>s'. length s' = 26 \<and> (of_char (s' ! 0) :: byte) \<le> of_char CHR ''7'' \<and>
            map (\<lambda>c. dec ! unat (of_char c :: byte)) s' =
              map (\<lambda>c. dec ! unat (of_char c :: byte)) s \<longrightarrow>
            ParseStrict s' = ParseStrict s)"
proof -
  have digits: "\<forall>s'. length s' = 26 \<and> (of_char (s' ! 0) :: byte) \<le> of_char CHR ''7'' \<and>
      map (\<lambda>c. dec ! unat (of_char c :: byte)) s' =
        map (\<lambda>c. dec ! unat (of_char c :: byte)) s \<longrightarrow>
      ParseStrict s' = ParseStrict s"
    using ParseStrict_digits_only [OF assms(1) _ _ assms(2)] by blast
  have lower: "map (\<lambda>c. dec ! unat (of_char c :: byte)) ''abcdefghjkmnpqrstvwxyz'' =
      map (\<lambda>c. dec ! unat (of_char c :: byte)) ''ABCDEFGHJKMNPQRSTVWXYZ''"
    by (simp add: dec_def)
  have len: "length (bytes_of_string s) = 26"
    using assms(1) by (simp add: length_bytes_of_string)
  have inv: "(snd (ParseStrict s) = Some ErrInvalidCharacters) =
      (\<exists>c \<in> set s. c \<notin> set Encoding \<and> c \<notin> set ''abcdefghjkmnpqrstvwxyz'')"
    unfolding ParseStrict_def parse_strict_check [OF len]
    by (simp only: bytes_of_string_def set_map bex_simps dec_FF_iff)
  have "\<not> (of_char CHR ''7'' :: byte) < bytes_of_string s ! 0"
    using assms by (simp add: bytes_of_string_nth not_less)
  then have "snd (ParseStrict s) = Some ErrInvalidCharacters \<or> snd (ParseStrict s) = None"
    using len by (simp add: ParseStrict_def parse_def EncodedSize_def)
  then have ok: "(snd (ParseStrict s) = None) = (snd (ParseStrict s) \<noteq> Some ErrInvalidCharacters)"
    by (cases "snd (ParseStrict s)") simp_all
  show ?thesis unfolding ok inv using lower digits by blast
qed

theorem ParseStrict_invalid_characters_witness:
  "length ''01AN4Z07BY79KA1307SR9X4MV3'' = 26 \<and>
   (of_char (''01AN4Z07BY79KA1307SR9X4MV3'' ! 0) :: byte) \<le> of_char CHR ''7'' \<and>
   snd (ParseStrict ''01AN4Z07BY79KA1307SR9X4MV3'') = None \<and>
   length ''01an4z07by79ka1307sr9x4mv3'' = 26 \<and>
   (of_char (''01an4z07by79ka1307sr9x4mv3'' ! 0) :: byte) \<le> of_char CHR ''7'' \<and>
   ParseStrict ''01an4z07by79ka1307sr9x4mv3'' = ParseStrict ''01AN4Z07BY79KA1307SR9X4MV3'' \<and>
   length ''01AN4Z07BY79KA1307SR9X4MVU'' = 26 \<and>
   (of_char (''01AN4Z07BY79KA1307SR9X4MVU'' ! 0) :: byte) \<le> of_char CHR ''7'' \<and>
   snd (ParseStrict ''01AN4Z07BY79KA1307SR9X4MVU'') = Some ErrInvalidCharacters"
proof -
  have a: "length ''01AN4Z07BY79KA1307SR9X4MV3'' = 26"
    and b: "(of_char (''01AN4Z07BY79KA1307SR9X4MV3'' ! 0) :: byte) \<le> of_char CHR ''7''"
    and c: "length ''01AN4Z07BY79KA1307SR9X4MVU'' = 26"
    and d: "(of_char (''01AN4Z07BY79KA1307SR9X4MVU'' ! 0) :: byte) \<le> of_char CHR ''7''"
    and e: "length ''01an4z07by79ka1307sr9x4mv3'' = 26"
    and f: "(of_char (''01an4z07by79ka1307sr9x4mv3'' ! 0) :: byte) \<le> of_char CHR ''7''"
    by simp_all
  have g: "map (\<lambda>c. dec ! unat (of_char c :: byte)) ''01an4z07by79ka1307sr9x4mv3'' =
      map (\<lambda>c. dec ! unat (of_char c :: byte)) ''01AN4Z07BY79KA1307SR9X4MV3''"
    by (simp add: dec_def)
  note upper = ParseStrict_invalid_characters [OF a b]
  have "snd (ParseStrict ''01AN4Z07BY79KA1307SR9X4MV3'') = None"
    using upper [THEN conjunct2, THEN conjunct1] by (simp add: Encoding_def)
  moreover have "ParseStrict ''01an4z07by79ka1307sr9x4mv3'' = ParseStrict ''01AN4Z07BY79KA1307SR9X4MV3''"
    using upper [THEN conjunct2, THEN conjunct2, THEN conjunct2] e f g by blast
  moreover have "snd (ParseStrict ''01AN4Z07BY79KA1307SR9X4MVU'') = Some ErrInvalidCharacters"
    using ParseStrict_invalid_characters [OF c d, THEN conjunct1] by (simp add: Encoding_def)
  ultimately show ?thesis using a b c d e f by blast
qed

subsection \<open>The database binding\<close>

text \<open>
  \<open>Scan\<close> of \<^verbatim>\<open>nil\<close>, which is neither a string nor a byte slice, returns no error.
\<close>

theorem Scan_nil_counterexample:
  "snd (Scan [0x01, 0x8F, 0x3A, 0x7C, 0x55, 0xE2, 0x00, 0x64, 0x00, 0x07, 0x5B, 0xCD, 0x15, 0x00, 0x00, 0x2A] SrcNil) = None \<and> snd (Scan [0x01, 0x8F, 0x3A, 0x7C, 0x55, 0xE2, 0x00, 0x64, 0x00, 0x07, 0x5B, 0xCD, 0x15, 0x00, 0x00, 0x2A] SrcNil) \<noteq> Some ErrScanValue"
  by simp

text \<open>
  C9 (amended). \<open>Scan\<close> returns the unsupported-source error for every source that is
  neither \<^verbatim>\<open>nil\<close>, a string nor a byte slice; for \<^verbatim>\<open>nil\<close> it returns no error and leaves
  the identifier as it was; a string is decoded as the text form (as \<open>UnmarshalText\<close>
  does) and a byte slice as the binary form (as \<open>UnmarshalBinary\<close> does), so that the two
  encodings of an identifier scan back to it.
\<close>

theorem Scan_sources:
  assumes "length sfid = 16" and "length x = 16"
  shows "(srcv \<noteq> SrcNil \<and> (\<forall>s. srcv \<noteq> SrcString s) \<and> (\<forall>b. srcv \<noteq> SrcBytes b) \<longrightarrow>
           Scan sfid srcv = (sfid, Some ErrScanValue)) \<and>
         Scan sfid SrcNil = (sfid, None) \<and>
         Scan sfid (SrcString s) = parse (bytes_of_string s) False sfid \<and>
         Scan sfid (SrcBytes b) = UnmarshalBinary sfid b \<and>
         Scan sfid (SrcString (String x)) = (x, None) \<and>
         Scan sfid (SrcBytes x) = (x, None)"
proof -
  have "Scan sfid (SrcString (String x)) = (x, None)"
    unfolding Scan.simps UnmarshalText_def String_def bytes_of_string_of_bytes
    by (rule parse_MarshalTextTo_any [OF assms(2) _ assms(1)]) (simp add: EncodedSize_def)
  moreover have "Scan sfid (SrcBytes x) = (x, None)"
    using assms by (simp add: UnmarshalBinary_def)
  moreover have "srcv \<noteq> SrcNil \<and> (\<forall>s. srcv \<noteq> SrcString s) \<and> (\<forall>b. srcv \<noteq> SrcBytes b) \<longrightarrow>
           Scan sfid srcv = (sfid, Some ErrScanValue)"
    by (cases srcv) simp_all
  ultimately show ?thesis by (simp add: UnmarshalText_def)
qed

theorem Scan_sources_witness:
  "length [0x01, 0x8F, 0x3A, 0x7C, 0x55, 0xE2, 0x00, 0x64, 0x00, 0x07, 0x5B, 0xCD, 0x15, 0x00, 0x00, 0x2A] = 16 \<and> length zero_SFID = 16 \<and>
   SrcInt64 5 \<noteq> SrcNil \<and> (\<forall>s. SrcInt64 5 \<noteq> SrcString s) \<and> (\<forall>b. SrcInt64 5 \<noteq> SrcBytes b) \<and>
   Scan [0x01, 0x8F, 0x3A, 0x7C, 0x55, 0xE2, 0x00, 0x64, 0x00, 0x07, 0x5B, 0xCD, 0x15, 0x00, 0x00, 0x2A] (SrcInt64 5) = ([0x01, 0x8F, 0x3A, 0x7C, 0x55, 0xE2, 0x00, 0x64, 0x00, 0x07, 0x5B, 0xCD, 0x15, 0x00, 0x00, 0x2A], Some ErrScanValue) \<and>
   Scan [0x01, 0x8F, 0x3A, 0x7C, 0x55, 0xE2, 0x00, 0x64, 0x00, 0x07, 0x5B, 0xCD, 0x15, 0x00, 0x00, 0x2A] (SrcBytes zero_SFID) = (zero_SFID, None)"
proof -
  have a: "length [0x01, 0x8F, 0x3A, 0x7C, 0x55, 0xE2, 0x00, 0x64, 0x00, 0x07, 0x5B, 0xCD, 0x15, 0x00, 0x00, 0x2A] = 16" by simp
  have b: "length zero_SFID = 16" by (rule length_zero_SFID)
  have c: "SrcInt64 5 \<noteq> SrcNil \<and> (\<forall>s. SrcInt64 5 \<noteq> SrcString s) \<and> (\<forall>b. SrcInt64 5 \<noteq> SrcBytes b)"
    by simp
  from Scan_sources [OF a b, of "SrcInt64 5"] a b c show ?thesis by blast
qed

subsection \<open>Order\<close>

lemma foldl_digits:
  "foldl (\<lambda>acc d. acc * B + unat d) a ds =
     a * B ^ length ds + foldl (\<lambda>acc d. acc * B + unat d) 0 (ds :: byte list)"
proof (induction ds arbitrary: a)
  case Nil
  show ?case by simp
next
  case (Cons d ds)
  define f where "f = (\<lambda>acc (d :: byte). acc * B + unat d)"
  have "foldl f a (d # ds) = foldl f (a * B + unat d) ds"
    by (simp add: f_def)
  also have "\<dots> = (a * B + unat d) * B ^ length ds + foldl f 0 ds"
    unfolding f_def by (rule Cons.IH)
  also have "\<dots> = a * B ^ length (d # ds) + (unat d * B ^ length ds + foldl f 0 ds)"
    by (simp add: algebra_simps)
  also have "unat d * B ^ length ds + foldl f 0 ds = foldl f (unat d) ds"
    unfolding f_def by (rule Cons.IH [symmetric])
  also have "foldl f (unat d) ds = foldl f 0 (d # ds)"
    by (simp add: f_def)
  finally show ?case unfolding f_def .
qed

lemma be_nat_Nil: "be_nat B [] = 0"
  by (simp add: be_nat_def)

lemma be_nat_Cons: "be_nat B (d # ds) = unat d * B ^ length ds + be_nat B ds"
  using foldl_digits [of B "unat d" ds] by (simp add: be_nat_def)

lemma be_nat_append: "be_nat B (xs @ ys) = be_nat B xs * B ^ length ys + be_nat B ys"
  by (induction xs) (simp_all add: be_nat_Nil be_nat_Cons algebra_simps power_add)

lemma be_nat_less:
  assumes "\<forall>d \<in> set ds. unat d < B"
  shows "be_nat B ds < B ^ length ds"
  using assms
proof (induction ds)
  case Nil
  show ?case by (simp add: be_nat_Nil)
next
  case (Cons d ds)
  then have "unat d + 1 \<le> B" and "be_nat B ds < B ^ length ds" by simp_all
  then have "unat d * B ^ length ds + be_nat B ds < (unat d + 1) * B ^ length ds"
    by simp
  also have "\<dots> \<le> B * B ^ length ds"
    using \<open>unat d + 1 \<le> B\<close> by (rule mult_le_mono1)
  finally show ?case by (simp add: be_nat_Cons)
qed

lemma bytes_Compare_be_nat:
  assumes "length xs = length ys"
    and "\<forall>d \<in> set xs. unat d < B" and "\<forall>d \<in> set ys. unat d < B"
  shows "bytes_Compare xs ys =
    (if be_nat B xs < be_nat B ys then - 1 else if be_nat B xs = be_nat B ys then 0 else 1)"
  using assms
proof (induction xs ys rule: list_induct2)
  case Nil
  show ?case by (simp add: be_nat_Nil)
next
  case (Cons x xs y ys)
  let ?n = "length xs"
  from Cons.prems have dx: "\<forall>d \<in> set xs. unat d < B" and dy: "\<forall>d \<in> set ys. unat d < B"
    by simp_all
  have bx: "be_nat B xs < B ^ ?n"
    using dx by (rule be_nat_less)
  have by': "be_nat B ys < B ^ ?n"
    using be_nat_less [OF dy] Cons.hyps by simp
  have IH: "bytes_Compare xs ys =
    (if be_nat B xs < be_nat B ys then - 1 else if be_nat B xs = be_nat B ys then 0 else 1)"
    using dx dy by (rule Cons.IH)
  have lt: "u * B ^ ?n + r < v * B ^ ?n + r'" if "u < v" "r < B ^ ?n" for u v r r' :: nat
  proof -
    from that have "u * B ^ ?n + r < (u + 1) * B ^ ?n" by simp
    also have "\<dots> \<le> v * B ^ ?n" using that(1) by (intro mult_le_mono1) simp
    finally show ?thesis by simp
  qed
  consider "x < y" | "y < x" | "x = y" by (metis not_less_iff_gr_or_eq)
  then show ?case
  proof cases
    case 1
    then have "unat x < unat y" by (simp add: word_less_nat_alt)
    then have "be_nat B (x # xs) < be_nat B (y # ys)"
      using lt [OF _ bx] Cons.hyps by (simp add: be_nat_Cons)
    with 1 show ?thesis by simp
  next
    case 2
    then have "unat y < unat x" by (simp add: word_less_nat_alt)
    then have "be_nat B (y # ys) < be_nat B (x # xs)"
      using lt [OF _ by'] Cons.hyps by (simp add: be_nat_Cons)
    with 2 show ?thesis by simp
  next
    case 3
    with IH Cons.hyps show ?thesis by (simp add: be_nat_Cons)
  qed
qed

lemma digits3:
  fixes n p q :: nat
  shows "n = n div (p * q) * (p * q) + (n div p) mod q * p + n mod p"
proof -
  define u where "u = n div p"
  have "n = u * p + n mod p"
    by (simp add: u_def)
  moreover have "u = (u div q) * q + u mod q"
    by simp
  moreover have "u div q = n div (p * q)"
    by (simp add: u_def div_mult2_eq)
  ultimately have "n = (n div (p * q) * q + u mod q) * p + n mod p"
    by (simp only:)
  then show ?thesis
    by (simp only: u_def add_mult_distrib mult.assoc mult.commute [of q p])
qed

lemma chunk_arith:
  fixes A B C D E :: nat
  shows "((((((A div 8 * 32 + ((A mod 8) * 4 + B div 64)) * 32 + (B div 2) mod 32) * 32 +
            ((B mod 2) * 16 + C div 16)) * 32 + ((C mod 16) * 2 + D div 128)) * 32 +
            (D div 4) mod 32) * 32 + ((D mod 4) * 8 + E div 32)) * 32 + E mod 32 =
         (((A * 256 + B) * 256 + C) * 256 + D) * 256 + E"
proof -
  define a1 a0 where "a1 = A div 8" and "a0 = A mod 8"
  define b2 b1 b0 where "b2 = B div 64" and "b1 = (B div 2) mod 32" and "b0 = B mod 2"
  define c1 c0 where "c1 = C div 16" and "c0 = C mod 16"
  define d2 d1 d0 where "d2 = D div 128" and "d1 = (D div 4) mod 32" and "d0 = D mod 4"
  define e1 e0 where "e1 = E div 32" and "e0 = E mod 32"
  have A: "A = a1 * 8 + a0" by (simp add: a1_def a0_def)
  have B: "B = b2 * 64 + b1 * 2 + b0"
    using digits3 [of B 2 32] by (simp add: b2_def b1_def b0_def)
  have C: "C = c1 * 16 + c0" by (simp add: c1_def c0_def)
  have D: "D = d2 * 128 + d1 * 4 + d0"
    using digits3 [of D 4 32] by (simp add: d2_def d1_def d0_def)
  have E: "E = e1 * 32 + e0" by (simp add: e1_def e0_def)
  have "((((((a1 * 32 + (a0 * 4 + b2)) * 32 + b1) * 32 + (b0 * 16 + c1)) * 32 + (c0 * 2 + d2)) * 32 +
            d1) * 32 + (d0 * 8 + e1)) * 32 + e0 =
        ((((a1 * 8 + a0) * 256 + (b2 * 64 + b1 * 2 + b0)) * 256 + (c1 * 16 + c0)) * 256 +
            (d2 * 128 + d1 * 4 + d0)) * 256 + (e1 * 32 + e0)"
    by (simp add: algebra_simps)
  also have "\<dots> = (((A * 256 + B) * 256 + C) * 256 + D) * 256 + E"
    by (simp only: A [symmetric] B [symmetric] C [symmetric] D [symmetric] E [symmetric])
  finally show ?thesis
    unfolding a1_def a0_def b2_def b1_def b0_def c1_def c0_def d2_def d1_def d0_def e1_def e0_def .
qed

lemma unat_or_disjoint:
  fixes x y :: byte
  assumes "x AND y = 0"
  shows "unat (x OR y) = unat x + unat y"
proof -
  have "unat x AND unat y = unat (x AND y)"
    by (simp only: unsigned_and_eq)
  with assms have "unat x AND unat y = 0" by simp
  then have "unat x + unat y = unat x OR unat y"
    by (rule disjunctive_add_eq_or)
  then show ?thesis by (simp only: unsigned_or_eq)
qed

lemma unat_drop_bit_byte:
  fixes a :: byte
  shows "unat (drop_bit k a) = unat a div 2 ^ k"
  by (simp only: unat_drop_bit_eq) (simp only: drop_bit_eq_div)

lemma unat_take_bit_byte:
  fixes a :: byte
  shows "unat (take_bit k a) = unat a mod 2 ^ k"
  by (simp only: unsigned_take_bit_eq) (simp only: take_bit_eq_mod)

lemma len8: "LENGTH(8) = 8"
  by simp

lemma unat_push_take_byte:
  fixes a :: byte
  assumes "j + k \<le> 8"
  shows "unat (push_bit k (take_bit j a)) = unat a mod 2 ^ j * 2 ^ k"
proof -
  have "unat a mod 2 ^ j * 2 ^ k < 2 ^ j * 2 ^ k"
    by simp
  also have "\<dots> = (2::nat) ^ (j + k)"
    by (simp add: power_add)
  also have "\<dots> \<le> 2 ^ 8"
    using assms by (intro power_increasing) simp_all
  finally have small: "take_bit 8 (unat a mod 2 ^ j * 2 ^ k) = unat a mod 2 ^ j * 2 ^ k"
    by (simp add: take_bit_nat_eq_self)
  have "unat (push_bit k (take_bit j a)) = take_bit LENGTH(8) (push_bit k (unat (take_bit j a)))"
    by (rule unsigned_push_bit_eq)
  also have "\<dots> = take_bit 8 (unat a mod 2 ^ j * 2 ^ k)"
    by (simp only: unat_take_bit_byte push_bit_eq_mult len8)
  also note small
  finally show ?thesis .
qed

lemma byte_high_bits:
  fixes a :: byte
  shows "\<not> bit a 8" "\<not> bit a 9" "\<not> bit a 10" "\<not> bit a 11" "\<not> bit a 12"
    "\<not> bit a 13" "\<not> bit a 14"
  by (auto dest: bit_imp_le_length)

lemma group_canon:
  fixes a :: byte
  shows "drop_bit 5 (a AND 224) = drop_bit 5 a"
    and "a AND 31 = take_bit 5 a"
    and "drop_bit 3 (a AND 248) = drop_bit 3 a"
    and "push_bit 2 (a AND 7) = push_bit 2 (take_bit 3 a)"
    and "drop_bit 6 (a AND 192) = drop_bit 6 a"
    and "drop_bit 1 (a AND 62) = take_bit 5 (drop_bit 1 a)"
    and "push_bit 4 (a AND 1) = push_bit 4 (take_bit 1 a)"
    and "drop_bit 4 (a AND 240) = drop_bit 4 a"
    and "push_bit 1 (a AND 15) = push_bit 1 (take_bit 4 a)"
    and "drop_bit 7 (a AND 128) = drop_bit 7 a"
    and "drop_bit 2 (a AND 124) = take_bit 5 (drop_bit 2 a)"
    and "push_bit 3 (a AND 3) = push_bit 3 (take_bit 2 a)"
  by (rule byte_eqI;
      ((simp add: bit_simps bit_mult_2_right byte_high_bits flip: numeral_2_eq_2 numeral_3_eq_3; fail) |
       (simp add: bit_simps bit_mult_2_right byte_high_bits flip: numeral_2_eq_2 numeral_3_eq_3,
        simp add: bit_0)))+

lemma group_disjoint:
  fixes a b :: byte
  shows "push_bit 2 (a AND 7) AND drop_bit 6 (b AND 192) = 0"
    and "push_bit 4 (a AND 1) AND drop_bit 4 (b AND 240) = 0"
    and "push_bit 1 (a AND 15) AND drop_bit 7 (b AND 128) = 0"
    and "push_bit 3 (a AND 3) AND drop_bit 5 (b AND 224) = 0"
  by (rule byte_eqI; simp add: bit_simps bit_mult_2_right flip: numeral_2_eq_2 numeral_3_eq_3)+

lemma group_unat:
  fixes a b :: byte
  shows "unat (drop_bit 5 (a AND 224)) = unat a div 32"
    and "unat (a AND 31) = unat a mod 32"
    and "unat (drop_bit 3 (a AND 248)) = unat a div 8"
    and "unat (push_bit 2 (a AND 7) OR drop_bit 6 (b AND 192)) = unat a mod 8 * 4 + unat b div 64"
    and "unat (drop_bit 1 (a AND 62)) = unat a div 2 mod 32"
    and "unat (push_bit 4 (a AND 1) OR drop_bit 4 (b AND 240)) = unat a mod 2 * 16 + unat b div 16"
    and "unat (push_bit 1 (a AND 15) OR drop_bit 7 (b AND 128)) = unat a mod 16 * 2 + unat b div 128"
    and "unat (drop_bit 2 (a AND 124)) = unat a div 4 mod 32"
    and "unat (push_bit 3 (a AND 3) OR drop_bit 5 (b AND 224)) = unat a mod 4 * 8 + unat b div 32"
proof -
  have p: "unat (push_bit 2 (take_bit 3 a)) = unat a mod 2 ^ 3 * 2 ^ 2"
    "unat (push_bit 4 (take_bit 1 a)) = unat a mod 2 ^ 1 * 2 ^ 4"
    "unat (push_bit 1 (take_bit 4 a)) = unat a mod 2 ^ 4 * 2 ^ 1"
    "unat (push_bit 3 (take_bit 2 a)) = unat a mod 2 ^ 2 * 2 ^ 3"
    by (rule unat_push_take_byte, simp)+
  note u = group_canon p unat_drop_bit_byte unat_take_bit_byte
  show "unat (drop_bit 5 (a AND 224)) = unat a div 32"
    by (simp only: u) simp
  show "unat (a AND 31) = unat a mod 32"
    by (simp only: u) simp
  show "unat (drop_bit 3 (a AND 248)) = unat a div 8"
    by (simp only: u) simp
  show "unat (push_bit 2 (a AND 7) OR drop_bit 6 (b AND 192)) = unat a mod 8 * 4 + unat b div 64"
    by (simp only: unat_or_disjoint [OF group_disjoint(1)]) (simp only: u, simp)
  show "unat (drop_bit 1 (a AND 62)) = unat a div 2 mod 32"
    by (simp only: u) simp
  show "unat (push_bit 4 (a AND 1) OR drop_bit 4 (b AND 240)) = unat a mod 2 * 16 + unat b div 16"
    by (simp only: unat_or_disjoint [OF group_disjoint(2)]) (simp only: u, simp)
  show "unat (push_bit 1 (a AND 15) OR drop_bit 7 (b AND 128)) = unat a mod 16 * 2 + unat b div 128"
    by (simp only: unat_or_disjoint [OF group_disjoint(3)]) (simp only: u, simp)
  show "unat (drop_bit 2 (a AND 124)) = unat a div 4 mod 32"
    by (simp only: u) simp
  show "unat (push_bit 3 (a AND 3) OR drop_bit 5 (b AND 224)) = unat a mod 4 * 8 + unat b div 32"
    by (simp only: unat_or_disjoint [OF group_disjoint(4)]) (simp only: u, simp)
qed

lemma head_value:
  fixes a :: byte
  shows "be_nat 32 [drop_bit 5 (a AND 224), a AND 31] = be_nat 256 [a]"
  by (simp only: be_nat_def foldl.simps group_unat) simp

lemma chunk_value:
  fixes a b c d e :: byte
  shows "be_nat 32 [drop_bit 3 (a AND 248),
      push_bit 2 (a AND 7) OR drop_bit 6 (b AND 192),
      drop_bit 1 (b AND 62),
      push_bit 4 (b AND 1) OR drop_bit 4 (c AND 240),
      push_bit 1 (c AND 15) OR drop_bit 7 (d AND 128),
      drop_bit 2 (d AND 124),
      push_bit 3 (d AND 3) OR drop_bit 5 (e AND 224),
      e AND 31] = be_nat 256 [a, b, c, d, e]"
  by (simp only: be_nat_def foldl.simps group_unat)
     (simp only: mult_zero_left add_0_left chunk_arith)

lemma digits_value:
  "be_nat 32 [drop_bit 5 (b0 AND 224),
      b0 AND 31,
      drop_bit 3 (b1 AND 248),
      push_bit 2 (b1 AND 7) OR drop_bit 6 (b2 AND 192),
      drop_bit 1 (b2 AND 62),
      push_bit 4 (b2 AND 1) OR drop_bit 4 (b3 AND 240),
      push_bit 1 (b3 AND 15) OR drop_bit 7 (b4 AND 128),
      drop_bit 2 (b4 AND 124),
      push_bit 3 (b4 AND 3) OR drop_bit 5 (b5 AND 224),
      b5 AND 31,
      drop_bit 3 (b6 AND 248),
      push_bit 2 (b6 AND 7) OR drop_bit 6 (b7 AND 192),
      drop_bit 1 (b7 AND 62),
      push_bit 4 (b7 AND 1) OR drop_bit 4 (b8 AND 240),
      push_bit 1 (b8 AND 15) OR drop_bit 7 (b9 AND 128),
      drop_bit 2 (b9 AND 124),
      push_bit 3 (b9 AND 3) OR drop_bit 5 (b10 AND 224),
      b10 AND 31,
      drop_bit 3 (b11 AND 248),
      push_bit 2 (b11 AND 7) OR drop_bit 6 (b12 AND 192),
      drop_bit 1 (b12 AND 62),
      push_bit 4 (b12 AND 1) OR drop_bit 4 (b13 AND 240),
      push_bit 1 (b13 AND 15) OR drop_bit 7 (b14 AND 128),
      drop_bit 2 (b14 AND 124),
      push_bit 3 (b14 AND 3) OR drop_bit 5 (b15 AND 224),
      b15 AND 31] = be_nat 256 [b0, b1, b2, b3, b4, b5, b6, b7, b8, b9, b10, b11, b12, b13, b14, b15]"
proof -
  have split_d: "[drop_bit 5 (b0 AND 224),
      b0 AND 31,
      drop_bit 3 (b1 AND 248),
      push_bit 2 (b1 AND 7) OR drop_bit 6 (b2 AND 192),
      drop_bit 1 (b2 AND 62),
      push_bit 4 (b2 AND 1) OR drop_bit 4 (b3 AND 240),
      push_bit 1 (b3 AND 15) OR drop_bit 7 (b4 AND 128),
      drop_bit 2 (b4 AND 124),
      push_bit 3 (b4 AND 3) OR drop_bit 5 (b5 AND 224),
      b5 AND 31,
      drop_bit 3 (b6 AND 248),
      push_bit 2 (b6 AND 7) OR drop_bit 6 (b7 AND 192),
      drop_bit 1 (b7 AND 62),
      push_bit 4 (b7 AND 1) OR drop_bit 4 (b8 AND 240),
      push_bit 1 (b8 AND 15) OR drop_bit 7 (b9 AND 128),
      drop_bit 2 (b9 AND 124),
      push_bit 3 (b9 AND 3) OR drop_bit 5 (b10 AND 224),
      b10 AND 31,
      drop_bit 3 (b11 AND 248),
      push_bit 2 (b11 AND 7) OR drop_bit 6 (b12 AND 192),
      drop_bit 1 (b12 AND 62),
      push_bit 4 (b12 AND 1) OR drop_bit 4 (b13 AND 240),
      push_bit 1 (b13 AND 15) OR drop_bit 7 (b14 AND 128),
      drop_bit 2 (b14 AND 124),
      push_bit 3 (b14 AND 3) OR drop_bit 5 (b15 AND 224),
      b15 AND 31] =
      [drop_bit 5 (b0 AND 224), b0 AND 31] @ [drop_bit 3 (b1 AND 248),
      push_bit 2 (b1 AND 7) OR drop_bit 6 (b2 AND 192),
      drop_bit 1 (b2 AND 62),
      push_bit 4 (b2 AND 1) OR drop_bit 4 (b3 AND 240),
      push_bit 1 (b3 AND 15) OR drop_bit 7 (b4 AND 128),
      drop_bit 2 (b4 AND 124),
      push_bit 3 (b4 AND 3) OR drop_bit 5 (b5 AND 224),
      b5 AND 31] @ [drop_bit 3 (b6 AND 248),
      push_bit 2 (b6 AND 7) OR drop_bit 6 (b7 AND 192),
      drop_bit 1 (b7 AND 62),
      push_bit 4 (b7 AND 1) OR drop_bit 4 (b8 AND 240),
      push_bit 1 (b8 AND 15) OR drop_bit 7 (b9 AND 128),
      drop_bit 2 (b9 AND 124),
      push_bit 3 (b9 AND 3) OR drop_bit 5 (b10 AND 224),
      b10 AND 31] @ [drop_bit 3 (b11 AND 248),
      push_bit 2 (b11 AND 7) OR drop_bit 6 (b12 AND 192),
      drop_bit 1 (b12 AND 62),
      push_bit 4 (b12 AND 1) OR drop_bit 4 (b13 AND 240),
      push_bit 1 (b13 AND 15) OR drop_bit 7 (b14 AND 128),
      drop_bit 2 (b14 AND 124),
      push_bit 3 (b14 AND 3) OR drop_bit 5 (b15 AND 224),
      b15 AND 31]"
    by simp
  have split_b: "[b0, b1, b2, b3, b4, b5, b6, b7, b8, b9, b10, b11, b12, b13, b14, b15] = [b0] @ [b1, b2, b3, b4, b5] @ [b6, b7, b8, b9, b10] @ [b11, b12, b13, b14, b15]"
    by simp
  show ?thesis
    unfolding split_d split_b be_nat_append head_value chunk_value
    by simp
qed

lemma unat_less_32:
  fixes x :: byte
  assumes "x AND 31 = x"
  shows "unat x < 32"
proof -
  have "x AND 31 \<le> 31" by (rule word_and_le1)
  with assms have "x \<le> 31" by simp
  then show ?thesis by (simp add: word_le_nat_alt)
qed

lemma digits_small:
  "\<forall>d \<in> set ([drop_bit 5 (b0 AND 224),
      b0 AND 31,
      drop_bit 3 (b1 AND 248),
      push_bit 2 (b1 AND 7) OR drop_bit 6 (b2 AND 192),
      drop_bit 1 (b2 AND 62),
      push_bit 4 (b2 AND 1) OR drop_bit 4 (b3 AND 240),
      push_bit 1 (b3 AND 15) OR drop_bit 7 (b4 AND 128),
      drop_bit 2 (b4 AND 124),
      push_bit 3 (b4 AND 3) OR drop_bit 5 (b5 AND 224),
      b5 AND 31,
      drop_bit 3 (b6 AND 248),
      push_bit 2 (b6 AND 7) OR drop_bit 6 (b7 AND 192),
      drop_bit 1 (b7 AND 62),
      push_bit 4 (b7 AND 1) OR drop_bit 4 (b8 AND 240),
      push_bit 1 (b8 AND 15) OR drop_bit 7 (b9 AND 128),
      drop_bit 2 (b9 AND 124),
      push_bit 3 (b9 AND 3) OR drop_bit 5 (b10 AND 224),
      b10 AND 31,
      drop_bit 3 (b11 AND 248),
      push_bit 2 (b11 AND 7) OR drop_bit 6 (b12 AND 192),
      drop_bit 1 (b12 AND 62),
      push_bit 4 (b12 AND 1) OR drop_bit 4 (b13 AND 240),
      push_bit 1 (b13 AND 15) OR drop_bit 7 (b14 AND 128),
      drop_bit 2 (b14 AND 124),
      push_bit 3 (b14 AND 3) OR drop_bit 5 (b15 AND 224),
      b15 AND 31] :: byte list). unat d < 32"
  by (simp only: list.set ball_simps group_lt32 [THEN unat_less_32] simp_thms)

lemma unat_less_256: "unat (d :: byte) < 256"
  using unsigned_less [of d, where 'a = nat] by simp

lemma Encoding_sorted: "sorted_wrt (<) (map of_char Encoding :: nat list)"
  by (simp add: Encoding_def)

lemma Encoding_less:
  assumes "m < n" and "n < 32"
  shows "(of_char (Encoding ! m) :: nat) < of_char (Encoding ! n)"
proof -
  have len: "length Encoding = 32" by (simp add: Encoding_def)
  from Encoding_sorted assms len
  have "map of_char Encoding ! m < (map of_char Encoding ! n :: nat)"
    by (simp add: sorted_wrt_iff_nth_less)
  with assms len show ?thesis by simp
qed

lemma Encoding_less_iff:
  fixes x y :: byte
  assumes "unat x < 32" and "unat y < 32"
  shows "((of_char (Encoding ! unat x) :: byte) < of_char (Encoding ! unat y)) = (x < y)"
proof -
  have "((of_char (Encoding ! unat x) :: byte) < of_char (Encoding ! unat y)) =
      ((of_char (Encoding ! unat x) :: nat) < of_char (Encoding ! unat y))"
    by (simp only: word_less_nat_alt unat_of_char)
  also have "\<dots> = (unat x < unat y)"
  proof (cases "unat x < unat y")
    case True
    with Encoding_less [OF True assms(2)] show ?thesis by simp
  next
    case False
    show ?thesis
    proof (cases "unat x = unat y")
      case True
      then show ?thesis by simp
    next
      case ne: False
      with False have "unat y < unat x" by simp
      from Encoding_less [OF this assms(1)] False show ?thesis by simp
    qed
  qed
  finally show ?thesis by (simp add: word_less_nat_alt)
qed

lemma bytes_Compare_map_Encoding:
  assumes "\<forall>d \<in> set xs. unat d < 32" and "\<forall>d \<in> set ys. unat d < 32"
  shows "bytes_Compare (map (\<lambda>x. of_char (Encoding ! unat x)) xs)
           (map (\<lambda>x. of_char (Encoding ! unat x)) ys) = bytes_Compare xs ys"
  using assms
  by (induction xs ys rule: bytes_Compare.induct) (simp_all add: Encoding_less_iff)

lemma String_16:
  "bytes_of_string (String [b0, b1, b2, b3, b4, b5, b6, b7, b8, b9, b10, b11, b12, b13, b14, b15]) =
     map (\<lambda>x. of_char (Encoding ! unat x)) [drop_bit 5 (b0 AND 224),
      b0 AND 31,
      drop_bit 3 (b1 AND 248),
      push_bit 2 (b1 AND 7) OR drop_bit 6 (b2 AND 192),
      drop_bit 1 (b2 AND 62),
      push_bit 4 (b2 AND 1) OR drop_bit 4 (b3 AND 240),
      push_bit 1 (b3 AND 15) OR drop_bit 7 (b4 AND 128),
      drop_bit 2 (b4 AND 124),
      push_bit 3 (b4 AND 3) OR drop_bit 5 (b5 AND 224),
      b5 AND 31,
      drop_bit 3 (b6 AND 248),
      push_bit 2 (b6 AND 7) OR drop_bit 6 (b7 AND 192),
      drop_bit 1 (b7 AND 62),
      push_bit 4 (b7 AND 1) OR drop_bit 4 (b8 AND 240),
      push_bit 1 (b8 AND 15) OR drop_bit 7 (b9 AND 128),
      drop_bit 2 (b9 AND 124),
      push_bit 3 (b9 AND 3) OR drop_bit 5 (b10 AND 224),
      b10 AND 31,
      drop_bit 3 (b11 AND 248),
      push_bit 2 (b11 AND 7) OR drop_bit 6 (b12 AND 192),
      drop_bit 1 (b12 AND 62),
      push_bit 4 (b12 AND 1) OR drop_bit 4 (b13 AND 240),
      push_bit 1 (b13 AND 15) OR drop_bit 7 (b14 AND 128),
      drop_bit 2 (b14 AND 124),
      push_bit 3 (b14 AND 3) OR drop_bit 5 (b15 AND 224),
      b15 AND 31]"
proof -
  have len: "length (replicate EncodedSize (0::byte)) = 26"
    by (simp add: EncodedSize_def)
  show ?thesis
    by (simp only: String_def bytes_of_string_of_bytes MarshalTextTo_16 [OF len] fst_conv list.map)
qed

lemma text_order_16:
  "strings_Compare (String [b0, b1, b2, b3, b4, b5, b6, b7, b8, b9, b10, b11, b12, b13, b14, b15]) (String [c0, c1, c2, c3, c4, c5, c6, c7, c8, c9, c10, c11, c12, c13, c14, c15]) =
     bytes_Compare [b0, b1, b2, b3, b4, b5, b6, b7, b8, b9, b10, b11, b12, b13, b14, b15] [c0, c1, c2, c3, c4, c5, c6, c7, c8, c9, c10, c11, c12, c13, c14, c15]"
proof -
  have "strings_Compare (String [b0, b1, b2, b3, b4, b5, b6, b7, b8, b9, b10, b11, b12, b13, b14, b15]) (String [c0, c1, c2, c3, c4, c5, c6, c7, c8, c9, c10, c11, c12, c13, c14, c15]) =
      bytes_Compare [drop_bit 5 (b0 AND 224),
      b0 AND 31,
      drop_bit 3 (b1 AND 248),
      push_bit 2 (b1 AND 7) OR drop_bit 6 (b2 AND 192),
      drop_bit 1 (b2 AND 62),
      push_bit 4 (b2 AND 1) OR drop_bit 4 (b3 AND 240),
      push_bit 1 (b3 AND 15) OR drop_bit 7 (b4 AND 128),
      drop_bit 2 (b4 AND 124),
      push_bit 3 (b4 AND 3) OR drop_bit 5 (b5 AND 224),
      b5 AND 31,
      drop_bit 3 (b6 AND 248),
      push_bit 2 (b6 AND 7) OR drop_bit 6 (b7 AND 192),
      drop_bit 1 (b7 AND 62),
      push_bit 4 (b7 AND 1) OR drop_bit 4 (b8 AND 240),
      push_bit 1 (b8 AND 15) OR drop_bit 7 (b9 AND 128),
      drop_bit 2 (b9 AND 124),
      push_bit 3 (b9 AND 3) OR drop_bit 5 (b10 AND 224),
      b10 AND 31,
      drop_bit 3 (b11 AND 248),
      push_bit 2 (b11 AND 7) OR drop_bit 6 (b12 AND 192),
      drop_bit 1 (b12 AND 62),
      push_bit 4 (b12 AND 1) OR drop_bit 4 (b13 AND 240),
      push_bit 1 (b13 AND 15) OR drop_bit 7 (b14 AND 128),
      drop_bit 2 (b14 AND 124),
      push_bit 3 (b14 AND 3) OR drop_bit 5 (b15 AND 224),
      b15 AND 31] [drop_bit 5 (c0 AND 224),
      c0 AND 31,
      drop_bit 3 (c1 AND 248),
      push_bit 2 (c1 AND 7) OR drop_bit 6 (c2 AND 192),
      drop_bit 1 (c2 AND 62),
      push_bit 4 (c2 AND 1) OR drop_bit 4 (c3 AND 240),
      push_bit 1 (c3 AND 15) OR drop_bit 7 (c4 AND 128),
      drop_bit 2 (c4 AND 124),
      push_bit 3 (c4 AND 3) OR drop_bit 5 (c5 AND 224),
      c5 AND 31,
      drop_bit 3 (c6 AND 248),
      push_bit 2 (c6 AND 7) OR drop_bit 6 (c7 AND 192),
      drop_bit 1 (c7 AND 62),
      push_bit 4 (c7 AND 1) OR drop_bit 4 (c8 AND 240),
      push_bit 1 (c8 AND 15) OR drop_bit 7 (c9 AND 128),
      drop_bit 2 (c9 AND 124),
      push_bit 3 (c9 AND 3) OR drop_bit 5 (c10 AND 224),
      c10 AND 31,
      drop_bit 3 (c11 AND 248),
      push_bit 2 (c11 AND 7) OR drop_bit 6 (c12 AND 192),
      drop_bit 1 (c12 AND 62),
      push_bit 4 (c12 AND 1) OR drop_bit 4 (c13 AND 240),
      push_bit 1 (c13 AND 15) OR drop_bit 7 (c14 AND 128),
      drop_bit 2 (c14 AND 124),
      push_bit 3 (c14 AND 3) OR drop_bit 5 (c15 AND 224),
      c15 AND 31]"
    unfolding strings_Compare_def String_16
    by (rule bytes_Compare_map_Encoding [OF digits_small digits_small])
  also have "\<dots> = (if be_nat 32 [drop_bit 5 (b0 AND 224),
      b0 AND 31,
      drop_bit 3 (b1 AND 248),
      push_bit 2 (b1 AND 7) OR drop_bit 6 (b2 AND 192),
      drop_bit 1 (b2 AND 62),
      push_bit 4 (b2 AND 1) OR drop_bit 4 (b3 AND 240),
      push_bit 1 (b3 AND 15) OR drop_bit 7 (b4 AND 128),
      drop_bit 2 (b4 AND 124),
      push_bit 3 (b4 AND 3) OR drop_bit 5 (b5 AND 224),
      b5 AND 31,
      drop_bit 3 (b6 AND 248),
      push_bit 2 (b6 AND 7) OR drop_bit 6 (b7 AND 192),
      drop_bit 1 (b7 AND 62),
      push_bit 4 (b7 AND 1) OR drop_bit 4 (b8 AND 240),
      push_bit 1 (b8 AND 15) OR drop_bit 7 (b9 AND 128),
      drop_bit 2 (b9 AND 124),
      push_bit 3 (b9 AND 3) OR drop_bit 5 (b10 AND 224),
      b10 AND 31,
      drop_bit 3 (b11 AND 248),
      push_bit 2 (b11 AND 7) OR drop_bit 6 (b12 AND 192),
      drop_bit 1 (b12 AND 62),
      push_bit 4 (b12 AND 1) OR drop_bit 4 (b13 AND 240),
      push_bit 1 (b13 AND 15) OR drop_bit 7 (b14 AND 128),
      drop_bit 2 (b14 AND 124),
      push_bit 3 (b14 AND 3) OR drop_bit 5 (b15 AND 224),
      b15 AND 31] < be_nat 32 [drop_bit 5 (c0 AND 224),
      c0 AND 31,
      drop_bit 3 (c1 AND 248),
      push_bit 2 (c1 AND 7) OR drop_bit 6 (c2 AND 192),
      drop_bit 1 (c2 AND 62),
      push_bit 4 (c2 AND 1) OR drop_bit 4 (c3 AND 240),
      push_bit 1 (c3 AND 15) OR drop_bit 7 (c4 AND 128),
      drop_bit 2 (c4 AND 124),
      push_bit 3 (c4 AND 3) OR drop_bit 5 (c5 AND 224),
      c5 AND 31,
      drop_bit 3 (c6 AND 248),
      push_bit 2 (c6 AND 7) OR drop_bit 6 (c7 AND 192),
      drop_bit 1 (c7 AND 62),
      push_bit 4 (c7 AND 1) OR drop_bit 4 (c8 AND 240),
      push_bit 1 (c8 AND 15) OR drop_bit 7 (c9 AND 128),
      drop_bit 2 (c9 AND 124),
      push_bit 3 (c9 AND 3) OR drop_bit 5 (c10 AND 224),
      c10 AND 31,
      drop_bit 3 (c11 AND 248),
      push_bit 2 (c11 AND 7) OR drop_bit 6 (c12 AND 192),
      drop_bit 1 (c12 AND 62),
      push_bit 4 (c12 AND 1) OR drop_bit 4 (c13 AND 240),
      push_bit 1 (c13 AND 15) OR drop_bit 7 (c14 AND 128),
      drop_bit 2 (c14 AND 124),
      push_bit 3 (c14 AND 3) OR drop_bit 5 (c15 AND 224),
      c15 AND 31] then - 1
      else if be_nat 32 [drop_bit 5 (b0 AND 224),
      b0 AND 31,
      drop_bit 3 (b1 AND 248),
      push_bit 2 (b1 AND 7) OR drop_bit 6 (b2 AND 192),
      drop_bit 1 (b2 AND 62),
      push_bit 4 (b2 AND 1) OR drop_bit 4 (b3 AND 240),
      push_bit 1 (b3 AND 15) OR drop_bit 7 (b4 AND 128),
      drop_bit 2 (b4 AND 124),
      push_bit 3 (b4 AND 3) OR drop_bit 5 (b5 AND 224),
      b5 AND 31,
      drop_bit 3 (b6 AND 248),
      push_bit 2 (b6 AND 7) OR drop_bit 6 (b7 AND 192),
      drop_bit 1 (b7 AND 62),
      push_bit 4 (b7 AND 1) OR drop_bit 4 (b8 AND 240),
      push_bit 1 (b8 AND 15) OR drop_bit 7 (b9 AND 128),
      drop_bit 2 (b9 AND 124),
      push_bit 3 (b9 AND 3) OR drop_bit 5 (b10 AND 224),
      b10 AND 31,
      drop_bit 3 (b11 AND 248),
      push_bit 2 (b11 AND 7) OR drop_bit 6 (b12 AND 192),
      drop_bit 1 (b12 AND 62),
      push_bit 4 (b12 AND 1) OR drop_bit 4 (b13 AND 240),
      push_bit 1 (b13 AND 15) OR drop_bit 7 (b14 AND 128),
      drop_bit 2 (b14 AND 124),
      push_bit 3 (b14 AND 3) OR drop_bit 5 (b15 AND 224),
      b15 AND 31] = be_nat 32 [drop_bit 5 (c0 AND 224),
      c0 AND 31,
      drop_bit 3 (c1 AND 248),
      push_bit 2 (c1 AND 7) OR drop_bit 6 (c2 AND 192),
      drop_bit 1 (c2 AND 62),
      push_bit 4 (c2 AND 1) OR drop_bit 4 (c3 AND 240),
      push_bit 1 (c3 AND 15) OR drop_bit 7 (c4 AND 128),
      drop_bit 2 (c4 AND 124),
      push_bit 3 (c4 AND 3) OR drop_bit 5 (c5 AND 224),
      c5 AND 31,
      drop_bit 3 (c6 AND 248),
      push_bit 2 (c6 AND 7) OR drop_bit 6 (c7 AND 192),
      drop_bit 1 (c7 AND 62),
      push_bit 4 (c7 AND 1) OR drop_bit 4 (c8 AND 240),
      push_bit 1 (c8 AND 15) OR drop_bit 7 (c9 AND 128),
      drop_bit 2 (c9 AND 124),
      push_bit 3 (c9 AND 3) OR drop_bit 5 (c10 AND 224),
      c10 AND 31,
      drop_bit 3 (c11 AND 248),
      push_bit 2 (c11 AND 7) OR drop_bit 6 (c12 AND 192),
      drop_bit 1 (c12 AND 62),
      push_bit 4 (c12 AND 1) OR drop_bit 4 (c13 AND 240),
      push_bit 1 (c13 AND 15) OR drop_bit 7 (c14 AND 128),
      drop_bit 2 (c14 AND 124),
      push_bit 3 (c14 AND 3) OR drop_bit 5 (c15 AND 224),
      c15 AND 31] then 0 else 1)"
    by (rule bytes_Compare_be_nat [OF _ digits_small digits_small]) simp
  also have "\<dots> = (if be_nat 256 [b0, b1, b2, b3, b4, b5, b6, b7, b8, b9, b10, b11, b12, b13, b14, b15] < be_nat 256 [c0, c1, c2, c3, c4, c5, c6, c7, c8, c9, c10, c11, c12, c13, c14, c15] then - 1
      else if be_nat 256 [b0, b1, b2, b3, b4, b5, b6, b7, b8, b9, b10, b11, b12, b13, b14, b15] = be_nat 256 [c0, c1, c2, c3, c4, c5, c6, c7, c8, c9, c10, c11, c12, c13, c14, c15] then 0 else 1)"
    by (simp only: digits_value)
  also have "\<dots> = bytes_Compare [b0, b1, b2, b3, b4, b5, b6, b7, b8, b9, b10, b11, b12, b13, b14, b15] [c0, c1, c2, c3, c4, c5, c6, c7, c8, c9, c10, c11, c12, c13, c14, c15]"
    by (rule bytes_Compare_be_nat [symmetric]) (simp_all add: unat_less_256)
  finally show ?thesis .
qed

text \<open>
  C3. For all identifiers \<open>a\<close> and \<open>b\<close>, \<open>Compare a b\<close> is the result of comparing their text
  encodings byte by byte as strings, so the two have the same sign; \<open>Compare\<close> is the
  comparison of the unsigned big-endian values of the 16 octets, and its result is
  \<open>-1\<close>, \<open>0\<close> or \<open>1\<close>.
\<close>

theorem Compare_order:
  assumes "length a = 16" and "length b = 16"
  shows "Compare a b = strings_Compare (String a) (String b) \<and>
         sgn (Compare a b) = sgn (strings_Compare (String a) (String b)) \<and>
         Compare a b = (if uint128 a < uint128 b then - 1 else if uint128 a = uint128 b then 0 else 1) \<and>
         Compare a b \<in> {- 1, 0, 1}"
proof -
  from assms(1) obtain b0 b1 b2 b3 b4 b5 b6 b7 b8 b9 b10 b11 b12 b13 b14 b15
    where a: "a = [b0, b1, b2, b3, b4, b5, b6, b7, b8, b9, b10, b11, b12, b13, b14, b15]" by (rule len16)
  from assms(2) obtain c0 c1 c2 c3 c4 c5 c6 c7 c8 c9 c10 c11 c12 c13 c14 c15
    where b: "b = [c0, c1, c2, c3, c4, c5, c6, c7, c8, c9, c10, c11, c12, c13, c14, c15]" by (rule len16)
  have s: "Compare a b = strings_Compare (String a) (String b)"
    unfolding a b Compare_def by (rule text_order_16 [symmetric])
  have n: "Compare a b = (if uint128 a < uint128 b then - 1 else if uint128 a = uint128 b then 0 else 1)"
    unfolding Compare_def uint128_def
    by (rule bytes_Compare_be_nat) (simp_all add: assms unat_less_256)
  have r: "Compare a b \<in> {- 1, 0, 1}"
    unfolding n by simp
  have g: "sgn (Compare a b) = sgn (strings_Compare (String a) (String b))"
    by (simp only: s)
  from s g n r show ?thesis by (intro conjI)
qed

theorem Compare_order_witness:
  "length [0x01, 0x8F, 0x3A, 0x7C, 0x55, 0xE2, 0x00, 0x64, 0x00, 0x07, 0x5B, 0xCD, 0x15, 0x00, 0x00, 0x2A] = 16 \<and>
   length [0x01, 0x8F, 0x3A, 0x7C, 0x55, 0xE2, 0x00, 0x64, 0x00, 0x07, 0x5B, 0xCD, 0x15, 0x00, 0x00, 0x2B] = 16 \<and>
   Compare [0x01, 0x8F, 0x3A, 0x7C, 0x55, 0xE2, 0x00, 0x64, 0x00, 0x07, 0x5B, 0xCD, 0x15, 0x00, 0x00, 0x2A] [0x01, 0x8F, 0x3A, 0x7C, 0x55, 0xE2, 0x00, 0x64, 0x00, 0x07, 0x5B, 0xCD, 0x15, 0x00, 0x00, 0x2B] = - 1 \<and>
   strings_Compare (String [0x01, 0x8F, 0x3A, 0x7C, 0x55, 0xE2, 0x00, 0x64, 0x00, 0x07, 0x5B, 0xCD, 0x15, 0x00, 0x00, 0x2A]) (String [0x01, 0x8F, 0x3A, 0x7C, 0x55, 0xE2, 0x00, 0x64, 0x00, 0x07, 0x5B, 0xCD, 0x15, 0x00, 0x00, 0x2B]) = - 1"
proof -
  have h1: "length [0x01, 0x8F, 0x3A, 0x7C, 0x55, 0xE2, 0x00, 0x64, 0x00, 0x07, 0x5B, 0xCD, 0x15, 0x00, 0x00, 0x2A] = 16"
    by simp
  have h2: "length [0x01, 0x8F, 0x3A, 0x7C, 0x55, 0xE2, 0x00, 0x64, 0x00, 0x07, 0x5B, 0xCD, 0x15, 0x00, 0x00, 0x2B] = 16"
    by simp
  have c: "Compare [0x01, 0x8F, 0x3A, 0x7C, 0x55, 0xE2, 0x00, 0x64, 0x00, 0x07, 0x5B, 0xCD, 0x15, 0x00, 0x00, 0x2A] [0x01, 0x8F, 0x3A, 0x7C, 0x55, 0xE2, 0x00, 0x64, 0x00, 0x07, 0x5B, 0xCD, 0x15, 0x00, 0x00, 0x2B] = - 1"
    by (simp add: Compare_def)
  from Compare_order [OF h1 h2] have "Compare [0x01, 0x8F, 0x3A, 0x7C, 0x55, 0xE2, 0x00, 0x64, 0x00, 0x07, 0x5B, 0xCD, 0x15, 0x00, 0x00, 0x2A] [0x01, 0x8F, 0x3A, 0x7C, 0x55, 0xE2, 0x00, 0x64, 0x00, 0x07, 0x5B, 0xCD, 0x15, 0x00, 0x00, 0x2B] = strings_Compare (String [0x01, 0x8F, 0x3A, 0x7C, 0x55, 0xE2, 0x00, 0x64, 0x00, 0x07, 0x5B, 0xCD, 0x15, 0x00, 0x00, 0x2A]) (String [0x01, 0x8F, 0x3A, 0x7C, 0x55, 0xE2, 0x00, 0x64, 0x00, 0x07, 0x5B, 0xCD, 0x15, 0x00, 0x00, 0x2B])"
    by (rule conjunct1)
  with c h1 h2 show ?thesis by (simp only: simp_thms)
qed

section \<open>Properties of the generator\<close>

subsection \<open>One call\<close>

lemma SNMask_value: "SNMask = mask 24"
  by (simp add: SNMask_def mask_eq_exp_minus_1)

lemma SNMask_maxSN: "SNMask = maxSN"
  by (simp add: SNMask_def maxSN_value)

lemma unat_succ_sn:
  fixes k :: "32 word"
  assumes "k < SNMask"
  shows "unat (k + 1) = unat k + 1" and "unat k + 1 < 2 ^ 24"
proof -
  from assms show b: "unat k + 1 < 2 ^ 24"
    by (simp add: SNMask_def word_less_nat_alt)
  then have "unat k + unat (1 :: 32 word) < 2 ^ LENGTH(32)" by simp
  then have "unat (k + 1) = unat k + unat (1 :: 32 word)"
    by (simp only: unat_add_lem)
  then show "unat (k + 1) = unat k + 1" by simp
qed

lemma sn_increment:
  fixes k :: "32 word"
  assumes "k < SNMask"
  shows "(k + 1) AND SNMask = k + 1" and "k < k + 1" and "k + 1 \<le> SNMask" and "k + 1 \<noteq> 0"
proof -
  note u = unat_succ_sn [OF assms]
  show "k < k + 1"
    by (simp add: word_less_nat_alt u)
  show "k + 1 \<le> SNMask"
    using u by (simp add: word_le_nat_alt SNMask_def)
  have "k + 1 < 2 ^ 24"
    using u by (simp add: word_less_nat_alt)
  then show "(k + 1) AND SNMask = k + 1"
    by (simp only: less_mask_eq SNMask_value)
  show "k + 1 \<noteq> 0"
  proof
    assume "k + 1 = 0"
    then have "unat (k + 1) = 0" by simp
    with u show False by simp
  qed
qed

lemma sn_wrap_iff:
  fixes k :: "32 word"
  assumes "k \<le> SNMask"
  shows "((k + 1) AND SNMask = 0) = (k = SNMask)"
proof
  assume "k = SNMask"
  then show "(k + 1) AND SNMask = 0" by (simp add: SNMask_def)
next
  assume z: "(k + 1) AND SNMask = 0"
  show "k = SNMask"
  proof (rule ccontr)
    assume "k \<noteq> SNMask"
    with assms have "k < SNMask" by simp
    from sn_increment(1) [OF this] sn_increment(4) [OF this] z show False by simp
  qed
qed

lemma uint_less_of_unat:
  fixes w :: "64 word"
  assumes "unat w < n"
  shows "uint w < int n"
  using assms by (simp only: uint_nat of_nat_less_iff)

lemma sint_small:
  fixes w :: "64 word"
  assumes "unat w < 2 ^ 63"
  shows "sint w = uint w"
proof -
  have "sint w = signed_take_bit 63 (uint w)"
    by (simp add: sint_uint)
  also have "\<dots> = uint w"
  proof (rule signed_take_bit_int_eq_self)
    have "(0::int) \<le> uint w" by simp
    moreover have "- (2 ^ 63 :: int) \<le> 0" by simp
    ultimately show "- (2 ^ 63) \<le> uint w" by (rule order_trans [rotated])
    from uint_less_of_unat [OF assms] show "uint w < 2 ^ 63" by simp
  qed
  finally show ?thesis .
qed

lemma until_test:
  fixes t c :: "64 word"
  assumes "unat t < 2 ^ 62" and "unat c < 2 ^ 62"
  shows "(0 <s t - c) = (c < t)"
proof -
  have st: "sint t = uint t" and sc: "sint c = uint c"
    using assms by (simp_all add: sint_small)
  have a: "uint t < 4611686018427387904" and b: "uint c < 4611686018427387904"
    using uint_less_of_unat [OF assms(1)] uint_less_of_unat [OF assms(2)] by simp_all
  have a0: "0 \<le> uint t" and b0: "0 \<le> uint c"
    by simp_all
  have "sint (t - c) = signed_take_bit 63 (sint t - sint c)"
    by (simp add: sint_word_ariths)
  also have "\<dots> = sint t - sint c"
  proof (rule signed_take_bit_int_eq_self)
    have p: "(2 ^ 63 :: int) = 9223372036854775808" by simp
    show "- (2 ^ 63) \<le> sint t - sint c"
      unfolding st sc p using a b a0 b0 by linarith
    show "sint t - sint c < 2 ^ 63"
      unfolding st sc p using a b a0 b0 by linarith
  qed
  finally have "sint (t - c) = uint t - uint c"
    by (simp only: st sc)
  then show ?thesis
    by (simp add: word_sless_alt word_less_def)
qed

lemma until_Some:
  "until t clk = Some clk' \<Longrightarrow> \<exists>ws c. clk = ws @ c # clk' \<and> \<not> 0 <s t - c"
proof (induction clk)
  case Nil
  then show ?case by simp
next
  case (Cons now clk)
  show ?case
  proof (cases "0 <s t - now")
    case True
    with Cons.prems have "until t clk = Some clk'" by simp
    from Cons.IH [OF this] obtain ws c where "clk = ws @ c # clk'" and "\<not> 0 <s t - c"
      by blast
    then have "now # clk = (now # ws) @ c # clk'" by simp
    with \<open>\<not> 0 <s t - c\<close> show ?thesis by blast
  next
    case False
    with Cons.prems have "clk' = clk" by simp
    then have "now # clk = [] @ now # clk'" by simp
    with False show ?thesis by blast
  qed
qed

lemma until_append:
  assumes "\<forall>w \<in> set ws. 0 <s t - w" and "\<not> 0 <s t - c"
  shows "until t (ws @ c # rest) = Some rest"
  using assms by (induction ws) simp_all

lemma Next_locked_cases:
  assumes "Next_locked s clk = Some (s', clk')"
  obtains (fresh) now where "clk = now # clk'" and "tms s < now"
      and "s' = s\<lparr>sn := 0, tms := now\<rparr>"
    | (same) now where "clk = now # clk'" and "now \<le> tms s"
      and "(sn s + 1) AND SNMask \<noteq> 0" and "s' = s\<lparr>sn := (sn s + 1) AND SNMask\<rparr>"
    | (wrap) now rest where "clk = now # rest" and "now \<le> tms s"
      and "(sn s + 1) AND SNMask = 0" and "until (tms s + 1) rest = Some clk'"
      and "s' = s\<lparr>sn := 0, tms := tms s + 1\<rparr>"
proof (cases clk)
  case Nil
  with assms show ?thesis by (simp add: Next_locked_def)
next
  case (Cons now rest)
  show ?thesis
  proof (cases "now \<le> tms s")
    case False
    with assms Cons have "clk' = rest" and "s' = s\<lparr>sn := 0, tms := now\<rparr>"
      by (simp_all add: Next_locked_def)
    with False Cons show ?thesis by (intro fresh [of now]) simp_all
  next
    case le: True
    show ?thesis
    proof (cases "(sn s + 1) AND SNMask = 0")
      case False
      with assms Cons le have "clk' = rest" and "s' = s\<lparr>sn := (sn s + 1) AND SNMask\<rparr>"
        by (simp_all add: Next_locked_def Let_def)
      with False Cons le show ?thesis by (intro same [of now]) simp_all
    next
      case True
      with assms Cons le have "until (tms s + 1) rest = Some clk'"
        and "s' = s\<lparr>sn := 0, tms := tms s + 1\<rparr>"
        by (auto simp: Next_locked_def Let_def split: option.splits)
      with True Cons le show ?thesis by (intro wrap [of now rest]) simp_all
    qed
  qed
qed

subsection \<open>The bytes of an emitted identifier\<close>

lemma unat_byte_of:
  fixes w :: "'a::len word"
  shows "unat (ucast (drop_bit j w) :: byte) = unat w div 2 ^ j mod 256"
proof -
  have "unat (ucast (drop_bit j w) :: byte) = take_bit LENGTH(8) (unat (drop_bit j w))"
    by (rule unsigned_ucast_eq)
  also have "\<dots> = take_bit 8 (drop_bit j (unat w))"
    by (simp only: unat_drop_bit_eq) simp
  also have "\<dots> = unat w div 2 ^ j mod 256"
    by (simp only: take_bit_eq_mod drop_bit_eq_div) simp
  finally show ?thesis .
qed

lemma unat_byte_0:
  fixes w :: "'a::len word"
  shows "unat (ucast w :: byte) = unat w mod 256"
  using unat_byte_of [of 0 w] by simp

lemma digit_step:
  fixes n a :: nat
  shows "n div (a * 256) * 256 + n div a mod 256 = n div a"
proof -
  have "n div (a * 256) = n div a div 256"
    by (simp add: div_mult2_eq)
  then show ?thesis by simp
qed

lemma time_digits:
  fixes n :: nat
  assumes "n < 2 ^ 48"
  shows "((((n div 2 ^ 40 mod 256 * 256 + n div 2 ^ 32 mod 256) * 256 + n div 2 ^ 24 mod 256) * 256 +
           n div 2 ^ 16 mod 256) * 256 + n div 2 ^ 8 mod 256) * 256 + n mod 256 = n"
proof -
  from assms have "n div 2 ^ 40 < 256"
    by (simp add: less_mult_imp_div_less)
  then have "n div 2 ^ 40 mod 256 = n div 2 ^ 40" by simp
  moreover have "n div 2 ^ 40 * 256 + n div 2 ^ 32 mod 256 = n div 2 ^ 32"
    using digit_step [of n "2 ^ 32"] by simp
  moreover have "n div 2 ^ 32 * 256 + n div 2 ^ 24 mod 256 = n div 2 ^ 24"
    using digit_step [of n "2 ^ 24"] by simp
  moreover have "n div 2 ^ 24 * 256 + n div 2 ^ 16 mod 256 = n div 2 ^ 16"
    using digit_step [of n "2 ^ 16"] by simp
  moreover have "n div 2 ^ 16 * 256 + n div 2 ^ 8 mod 256 = n div 2 ^ 8"
    using digit_step [of n "2 ^ 8"] by simp
  moreover have "n div 2 ^ 8 * 256 + n mod 256 = n"
    by simp
  ultimately show ?thesis by (simp only:)
qed

lemma sn_digits:
  fixes n :: nat
  assumes "n < 2 ^ 24"
  shows "(n div 2 ^ 16 mod 256 * 256 + n div 2 ^ 8 mod 256) * 256 + n mod 256 = n"
proof -
  from assms have "n div 2 ^ 16 < 256"
    by (simp add: less_mult_imp_div_less)
  then have "n div 2 ^ 16 mod 256 = n div 2 ^ 16" by simp
  moreover have "n div 2 ^ 16 * 256 + n div 2 ^ 8 mod 256 = n div 2 ^ 8"
    using digit_step [of n "2 ^ 8"] by simp
  moreover have "n div 2 ^ 8 * 256 + n mod 256 = n"
    by simp
  ultimately show ?thesis by (simp only:)
qed

lemma time_bytes_value:
  fixes t :: "64 word"
  assumes "t \<le> maxTime"
  shows "be_nat 256 [ucast (drop_bit 40 t), ucast (drop_bit 32 t), ucast (drop_bit 24 t),
           ucast (drop_bit 16 t), ucast (drop_bit 8 t), ucast t] = unat t"
proof -
  from assms have "unat t < 2 ^ 48"
    by (simp add: maxTime_value word_le_nat_alt)
  from time_digits [OF this] show ?thesis
    by (simp only: be_nat_def foldl.simps unat_byte_0 unat_drop_bit_eq mult_zero_left add_0_left)
       (simp only: drop_bit_eq_div)
qed

lemma sn_bytes_value:
  fixes k :: "32 word"
  assumes "k \<le> maxSN"
  shows "be_nat 256 [ucast (drop_bit 16 k), ucast (drop_bit 8 k), ucast k] = unat k"
proof -
  from assms have "unat k < 2 ^ 24"
    by (simp add: maxSN_value word_le_nat_alt)
  from sn_digits [OF this] show ?thesis
    by (simp only: be_nat_def foldl.simps unat_byte_0 unat_drop_bit_eq mult_zero_left add_0_left)
       (simp only: drop_bit_eq_div)
qed

lemma length_SetNode: "length (SetNode sfid nodeid) = length sfid"
  by (simp add: SetNode_def)

lemma length_SetNonce: "length (fst (SetNonce sfid n)) = length sfid"
  by (simp add: SetNonce_def)

lemma id_bytes:
  assumes "t \<le> maxTime" and "k \<le> maxSN"
  shows "fst (SetSN (fst (SetTime [z0, z1, z2, z3, z4, z5, z6, z7, z8, z9, z10, z11, z12, z13, z14, z15] t)) k) =
    [ucast (drop_bit 40 t), ucast (drop_bit 32 t), ucast (drop_bit 24 t),
     ucast (drop_bit 16 t), ucast (drop_bit 8 t), ucast t] @
    [z6, z7, z8, z9, z10, z11, z12] @
    [ucast (drop_bit 16 k), ucast (drop_bit 8 k), ucast k]"
  using assms by (simp add: SetTime_def SetSN_def not_less [symmetric])

lemma id_uint128:
  assumes "t \<le> maxTime" and "k \<le> maxSN"
  shows "uint128 (fst (SetSN (fst (SetTime [z0, z1, z2, z3, z4, z5, z6, z7, z8, z9, z10, z11, z12, z13, z14, z15] t)) k)) =
    (unat t * 72057594037927936 + be_nat 256 [z6, z7, z8, z9, z10, z11, z12]) * 16777216 + unat k"
  unfolding uint128_def id_bytes [OF assms] be_nat_append
    time_bytes_value [OF assms(1)] sn_bytes_value [OF assms(2)]
  by simp

lemma key_order:
  fixes a a' m k k' :: nat
  assumes "k < 16777216" and "m < 72057594037927936"
    and "a < a' \<or> (a = a' \<and> k < k')"
  shows "(a * 72057594037927936 + m) * 16777216 + k <
         (a' * 72057594037927936 + m) * 16777216 + k'"
  using assms
proof (elim disjE conjE)
  assume "a < a'"
  then have "a + 1 \<le> a'" by simp
  then have "(a + 1) * 72057594037927936 \<le> a' * 72057594037927936"
    by (rule mult_le_mono1)
  with assms(1,2) show ?thesis by simp
next
  assume "a = a'" and "k < k'"
  then show ?thesis by simp
qed

lemma id_Compare:
  assumes "length base = 16"
    and "t \<le> maxTime" and "k \<le> maxSN" and "t' \<le> maxTime" and "k' \<le> maxSN"
    and "t < t' \<or> (t = t' \<and> k < k')"
  shows "Compare (fst (SetSN (fst (SetTime base t)) k)) (fst (SetSN (fst (SetTime base t')) k')) = - 1"
proof -
  from assms(1) obtain z0 z1 z2 z3 z4 z5 z6 z7 z8 z9 z10 z11 z12 z13 z14 z15
    where base: "base = [z0, z1, z2, z3, z4, z5, z6, z7, z8, z9, z10, z11, z12, z13, z14, z15]"
    by (rule len16)
  let ?x = "fst (SetSN (fst (SetTime base t)) k)"
  let ?y = "fst (SetSN (fst (SetTime base t')) k')"
  have len: "length ?x = length ?y"
    by (simp add: SetSN_def SetTime_def)
  have "unat k < 16777216"
    using assms(3) by (simp add: maxSN_value word_le_nat_alt)
  moreover have "be_nat 256 [z6, z7, z8, z9, z10, z11, z12] < 256 ^ length [z6, z7, z8, z9, z10, z11, z12]"
    by (rule be_nat_less) (simp add: unat_less_256)
  then have "be_nat 256 [z6, z7, z8, z9, z10, z11, z12] < 72057594037927936"
    by simp
  moreover have "unat t < unat t' \<or> (unat t = unat t' \<and> unat k < unat k')"
    using assms(6) by (auto simp: word_less_nat_alt)
  ultimately have "uint128 ?x < uint128 ?y"
    unfolding base id_uint128 [OF assms(2,3)] id_uint128 [OF assms(4,5)]
    by (rule key_order)
  moreover have "Compare ?x ?y =
      (if uint128 ?x < uint128 ?y then - 1 else if uint128 ?x = uint128 ?y then 0 else 1)"
    unfolding Compare_def uint128_def
    by (rule bytes_Compare_be_nat [OF len]) (simp_all add: unat_less_256)
  ultimately show ?thesis by simp
qed

subsection \<open>Successive calls\<close>

lemma tms_succ:
  fixes t :: "64 word"
  assumes "t \<le> maxTime"
  shows "unat (t + 1) = unat t + 1" and "t < t + 1"
proof -
  from assms have b: "unat t < 2 ^ 48"
    by (simp add: maxTime_value word_le_nat_alt)
  then have "unat t + unat (1 :: 64 word) < 2 ^ LENGTH(64)" by simp
  then have "unat (t + 1) = unat t + unat (1 :: 64 word)"
    by (simp only: unat_add_lem)
  then show u: "unat (t + 1) = unat t + 1" by simp
  then show "t < t + 1" by (simp add: word_less_nat_alt)
qed

lemma Next_locked_step_conj:
  assumes "Next_locked s clk = Some (s', clk')"
    and "tms s \<le> maxTime" and "sn s \<le> SNMask" and "\<forall>r \<in> set clk. r \<le> maxTime"
  shows "tms s' \<le> maxTime \<and> sn s' \<le> SNMask \<and> (\<forall>r \<in> set clk'. r \<le> maxTime) \<and>
     node s' = node s \<and> nonce s' = nonce s \<and> (tms s < tms s' \<or> (tms s = tms s' \<and> sn s < sn s'))"
  using assms(1)
proof (cases rule: Next_locked_cases)
  case (fresh now)
  with assms show ?thesis
    by simp
next
  case (same now)
  from same(3) assms(3) have "sn s \<noteq> SNMask" by (simp add: sn_wrap_iff)
  with assms(3) have "sn s < SNMask" by simp
  note inc = sn_increment [OF this]
  from same assms(2,4) inc
  show ?thesis
    by simp
next
  case (wrap now rest)
  from until_Some [OF wrap(4)] obtain ws c
    where rest: "rest = ws @ c # clk'" and c: "\<not> 0 <s tms s + 1 - c" by blast
  from assms(4) wrap(1) rest have cm: "c \<le> maxTime" and later: "\<forall>r \<in> set clk'. r \<le> maxTime"
    by simp_all
  note u = tms_succ [OF assms(2)]
  from assms(2) have "unat (tms s) < 2 ^ 48"
    by (simp add: maxTime_value word_le_nat_alt)
  with u have a: "unat (tms s + 1) < 2 ^ 62" by simp
  from cm have b: "unat c < 2 ^ 62"
    by (simp add: maxTime_value word_le_nat_alt)
  from c until_test [OF a b] have "\<not> c < tms s + 1"
    by blast
  with cm have "tms s + 1 \<le> maxTime" by simp
  with wrap later u(2)
  show ?thesis
    by simp
qed

lemma Next_locked_step:
  assumes "Next_locked s clk = Some (s', clk')"
    and "tms s \<le> maxTime" and "sn s \<le> SNMask" and "\<forall>r \<in> set clk. r \<le> maxTime"
  shows "tms s' \<le> maxTime" and "sn s' \<le> SNMask" and "\<forall>r \<in> set clk'. r \<le> maxTime"
    and "node s' = node s" and "nonce s' = nonce s"
    and "tms s < tms s' \<or> (tms s = tms s' \<and> sn s < sn s')"
  using Next_locked_step_conj [OF assms] by simp_all

lemma Next_result:
  assumes "Next s clk = Some (x, s', clk')"
  shows "Next_locked s clk = Some (s', clk')"
    and "x = fst (SetSN (fst (SetTime (fst (SetNonce (SetNode zero_SFID (node s)) (nonce s))) (tms s'))) (sn s'))"
  using assms by (auto simp: Next_def Let_def split: option.splits)

lemma Nexts_Suc_cases:
  assumes "Nexts (Suc n) s clk = Some (ids, s', clk')"
  obtains x s1 clk1 xs where "Next s clk = Some (x, s1, clk1)"
    and "Nexts n s1 clk1 = Some (xs, s', clk')" and "ids = x # xs"
  using assms by (auto split: option.splits)

lemma Nexts_invariant:
  assumes "Nexts n s clk = Some (ids, s', clk')"
    and "tms s \<le> maxTime" and "sn s \<le> SNMask" and "\<forall>r \<in> set clk. r \<le> maxTime"
  shows "tms s' \<le> maxTime \<and> sn s' \<le> SNMask \<and> (\<forall>r \<in> set clk'. r \<le> maxTime) \<and>
     node s' = node s \<and> nonce s' = nonce s \<and>
     (0 < n \<longrightarrow> tms s < tms s' \<or> (tms s = tms s' \<and> sn s < sn s')) \<and>
     (\<forall>x \<in> set ids. \<exists>t k. t \<le> maxTime \<and> k \<le> maxSN \<and>
        (tms s < t \<or> (tms s = t \<and> sn s < k)) \<and>
        x = fst (SetSN (fst (SetTime (fst (SetNonce (SetNode zero_SFID (node s)) (nonce s))) t)) k)) \<and>
     sorted_wrt (\<lambda>a b. Compare a b = - 1) ids"
  using assms
proof (induction n arbitrary: s clk ids)
  case 0
  then show ?case by simp
next
  case (Suc n)
  from Suc.prems(1) obtain x s1 clk1 xs where first: "Next s clk = Some (x, s1, clk1)"
    and others: "Nexts n s1 clk1 = Some (xs, s', clk')" and ids: "ids = x # xs"
    by (rule Nexts_Suc_cases)
  note r = Next_result [OF first]
  note st = Next_locked_step [OF r(1) Suc.prems(2,3,4)]
  note IH = Suc.IH [OF others st(1,2,3)]
  let ?base = "fst (SetNonce (SetNode zero_SFID (node s)) (nonce s))"
  have lenb: "length ?base = 16"
    by (simp add: length_SetNonce length_SetNode length_zero_SFID)
  have s1_SN: "sn s1 \<le> maxSN"
    using st(2) by (simp add: SNMask_maxSN)
  have lex: "tms s < tms s' \<or> (tms s = tms s' \<and> sn s < sn s')"
  proof (cases n)
    case 0
    with others have "s' = s1" by simp
    with st(6) show ?thesis by simp
  next
    case (Suc m)
    with IH have "tms s1 < tms s' \<or> (tms s1 = tms s' \<and> sn s1 < sn s')" by simp
    with st(6) show ?thesis by auto
  qed
  have later: "\<exists>t k. t \<le> maxTime \<and> k \<le> maxSN \<and>
        (tms s1 < t \<or> (tms s1 = t \<and> sn s1 < k)) \<and>
        y = fst (SetSN (fst (SetTime ?base t)) k)" if "y \<in> set xs" for y
    using IH that by (simp add: st(4,5))
  have head_less: "Compare x y = - 1" if "y \<in> set xs" for y
  proof -
    from later [OF that] obtain t k where t: "t \<le> maxTime" and k: "k \<le> maxSN"
      and gt: "tms s1 < t \<or> (tms s1 = t \<and> sn s1 < k)"
      and y: "y = fst (SetSN (fst (SetTime ?base t)) k)" by blast
    show ?thesis
      unfolding r(2) y by (rule id_Compare [OF lenb st(1) s1_SN t k gt])
  qed
  have members: "\<exists>t k. t \<le> maxTime \<and> k \<le> maxSN \<and>
        (tms s < t \<or> (tms s = t \<and> sn s < k)) \<and>
        y = fst (SetSN (fst (SetTime ?base t)) k)" if "y \<in> set ids" for y
  proof (cases "y = x")
    case True
    with r(2) st(1,6) s1_SN show ?thesis by blast
  next
    case False
    with that ids have "y \<in> set xs" by simp
    from later [OF this] obtain t k where t: "t \<le> maxTime" and k: "k \<le> maxSN"
      and gt: "tms s1 < t \<or> (tms s1 = t \<and> sn s1 < k)"
      and y: "y = fst (SetSN (fst (SetTime ?base t)) k)" by blast
    from gt st(6) have "tms s < t \<or> (tms s = t \<and> sn s < k)" by auto
    with t k y show ?thesis by blast
  qed
  from IH have "sorted_wrt (\<lambda>a b. Compare a b = - 1) xs" by simp
  with head_less have sorted: "sorted_wrt (\<lambda>a b. Compare a b = - 1) ids"
    by (simp add: ids)
  from IH st(4,5) lex members sorted show ?case by simp
qed

lemma bytes_Compare_same: "bytes_Compare xs xs = 0"
  by (induction xs) simp_all

lemma sorted_wrt_Compare_distinct:
  assumes "sorted_wrt (\<lambda>a b. Compare a b = - 1) ids"
  shows "distinct ids"
  using assms
proof (induction ids)
  case Nil
  show ?case by simp
next
  case (Cons x xs)
  have "x \<notin> set xs"
  proof
    assume "x \<in> set xs"
    with Cons.prems have "Compare x x = - 1" by simp
    then show False by (simp add: Compare_def bytes_Compare_same)
  qed
  with Cons show ?case by simp
qed

lemma Nexts_append:
  assumes "Nexts m s clk = Some (ids1, s1, clk1)" and "Nexts n s1 clk1 = Some (ids2, s2, clk2)"
  shows "Nexts (m + n) s clk = Some (ids1 @ ids2, s2, clk2)"
  using assms
proof (induction m arbitrary: s clk ids1)
  case 0
  then show ?case by simp
next
  case (Suc m)
  from Suc.prems(1) obtain x s' clk' xs where first: "Next s clk = Some (x, s', clk')"
    and others: "Nexts m s' clk' = Some (xs, s1, clk1)" and ids: "ids1 = x # xs"
    by (rule Nexts_Suc_cases)
  from Suc.IH [OF others Suc.prems(2)] first ids show ?case by simp
qed

lemma NewSnowflakePro_state:
  assumes "NewSnowflakePro nodeid n0 = Inr g"
  shows "tms g \<le> maxTime" and "sn g \<le> SNMask"
  using assms by (auto simp: NewSnowflakePro_def split: if_splits)

text \<open>
  \<^verbatim>\<open>Next\<close> drops the error of \<^verbatim>\<open>SetTime\<close>. When the wall clock is past \<open>2^48 - 1\<close>
  milliseconds the time bytes of every identifier stay zero: two calls at the clock
  readings \<open>2^48\<close> and \<open>2^48 + 1\<close> return the same identifier.
\<close>

theorem Next_out_of_range_counterexample:
  "NewSnowflakePro 100 123456789 = Inr \<lparr>sn = 0, node = 100, nonce = 123456789, tms = 0\<rparr> \<and>
   Nexts 2 \<lparr>sn = 0, node = 100, nonce = 123456789, tms = 0\<rparr> [0x1000000000000, 0x1000000000001] =
     Some ([[0, 0, 0, 0, 0, 0, 0x00, 0x64, 0x00, 0x07, 0x5B, 0xCD, 0x15, 0, 0, 0],
            [0, 0, 0, 0, 0, 0, 0x00, 0x64, 0x00, 0x07, 0x5B, 0xCD, 0x15, 0, 0, 0]],
           \<lparr>sn = 0, node = 100, nonce = 123456789, tms = 0x1000000000001\<rparr>, []) \<and>
   Compare [0, 0, 0, 0, 0, 0, 0x00, 0x64, 0x00, 0x07, 0x5B, 0xCD, 0x15, 0, 0, 0]
           [0, 0, 0, 0, 0, 0, 0x00, 0x64, 0x00, 0x07, 0x5B, 0xCD, 0x15, 0, 0, 0] = 0"
  by code_simp

text \<open>
  C2 (amended). For a generator made by \<open>NewSnowflakePro\<close>, and a wall clock whose readings
  all lie between 0 and \<open>2^48 - 1\<close> milliseconds, in any sequence of calls of \<open>Next\<close> that
  follow one another the identifier of an earlier call compares strictly less than the
  identifier of a later call, no two identifiers are equal, and the pair of timestamp
  and sequence number of the generator grows strictly in the lexicographic order with
  every call.
\<close>

theorem Next_strictly_increasing:
  assumes "NewSnowflakePro nodeid n0 = Inr g"
    and "\<forall>r \<in> set clk. r \<le> maxTime"
    and "Nexts m g clk = Some (ids1, s, clk1)"
    and "Nexts n s clk1 = Some (ids2, s', clk2)"
  shows "sorted_wrt (\<lambda>a b. Compare a b < 0) (ids1 @ ids2) \<and>
         distinct (ids1 @ ids2) \<and>
         (0 < n \<longrightarrow> tms s < tms s' \<or> (tms s = tms s' \<and> sn s < sn s'))"
proof -
  note g = NewSnowflakePro_state [OF assms(1)]
  from Nexts_invariant [OF assms(3) g assms(2)]
  have s: "tms s \<le> maxTime" "sn s \<le> SNMask" "\<forall>r \<in> set clk1. r \<le> maxTime"
    by simp_all
  from Nexts_invariant [OF assms(4) s]
  have lex: "0 < n \<longrightarrow> tms s < tms s' \<or> (tms s = tms s' \<and> sn s < sn s')"
    by simp
  have "Nexts (m + n) g clk = Some (ids1 @ ids2, s', clk2)"
    using assms(3,4) by (rule Nexts_append)
  from Nexts_invariant [OF this g assms(2)]
  have sorted: "sorted_wrt (\<lambda>a b. Compare a b = - 1) (ids1 @ ids2)"
    by simp
  then have "sorted_wrt (\<lambda>a b. Compare a b < 0) (ids1 @ ids2)"
    by (rule sorted_wrt_mono_rel [rotated]) simp
  with sorted_wrt_Compare_distinct [OF sorted] lex show ?thesis by simp
qed

theorem Next_strictly_increasing_witness:
  "NewSnowflakePro 100 123456789 = Inr \<lparr>sn = 0, node = 100, nonce = 123456789, tms = 0\<rparr> \<and>
   (1000 :: 64 word) \<le> maxTime \<and> (1001 :: 64 word) \<le> maxTime \<and>
   Nexts 2 \<lparr>sn = 0, node = 100, nonce = 123456789, tms = 0\<rparr> [1000, 1000, 1001] =
     Some ([[0, 0, 0, 0, 0x03, 0xE8, 0x00, 0x64, 0x00, 0x07, 0x5B, 0xCD, 0x15, 0, 0, 0],
            [0, 0, 0, 0, 0x03, 0xE8, 0x00, 0x64, 0x00, 0x07, 0x5B, 0xCD, 0x15, 0, 0, 1]],
           \<lparr>sn = 1, node = 100, nonce = 123456789, tms = 1000\<rparr>, [1001]) \<and>
   Nexts 1 \<lparr>sn = 1, node = 100, nonce = 123456789, tms = 1000\<rparr> [1001] =
     Some ([[0, 0, 0, 0, 0x03, 0xE9, 0x00, 0x64, 0x00, 0x07, 0x5B, 0xCD, 0x15, 0, 0, 0]],
           \<lparr>sn = 0, node = 100, nonce = 123456789, tms = 1001\<rparr>, []) \<and>
   sorted_wrt (\<lambda>a b. Compare a b < 0)
     ([[0, 0, 0, 0, 0x03, 0xE8, 0x00, 0x64, 0x00, 0x07, 0x5B, 0xCD, 0x15, 0, 0, 0],
       [0, 0, 0, 0, 0x03, 0xE8, 0x00, 0x64, 0x00, 0x07, 0x5B, 0xCD, 0x15, 0, 0, 1]] @
      [[0, 0, 0, 0, 0x03, 0xE9, 0x00, 0x64, 0x00, 0x07, 0x5B, 0xCD, 0x15, 0, 0, 0]])"
proof -
  have a: "NewSnowflakePro 100 123456789 = Inr \<lparr>sn = 0, node = 100, nonce = 123456789, tms = 0\<rparr>"
    by (simp add: NewSnowflakePro_def MaxNonce_def)
  have b: "\<forall>r \<in> set [1000, 1000, 1001 :: 64 word]. r \<le> maxTime"
    by (simp add: maxTime_value)
  have c: "Nexts 2 \<lparr>sn = 0, node = 100, nonce = 123456789, tms = 0\<rparr> [1000, 1000, 1001] =
     Some ([[0, 0, 0, 0, 0x03, 0xE8, 0x00, 0x64, 0x00, 0x07, 0x5B, 0xCD, 0x15, 0, 0, 0],
            [0, 0, 0, 0, 0x03, 0xE8, 0x00, 0x64, 0x00, 0x07, 0x5B, 0xCD, 0x15, 0, 0, 1]],
           \<lparr>sn = 1, node = 100, nonce = 123456789, tms = 1000\<rparr>, [1001])"
    by code_simp
  have d: "Nexts 1 \<lparr>sn = 1, node = 100, nonce = 123456789, tms = 1000\<rparr> [1001] =
     Some ([[0, 0, 0, 0, 0x03, 0xE9, 0x00, 0x64, 0x00, 0x07, 0x5B, 0xCD, 0x15, 0, 0, 0]],
           \<lparr>sn = 0, node = 100, nonce = 123456789, tms = 1001\<rparr>, [])"
    by code_simp
  have e: "(1000 :: 64 word) \<le> maxTime" "(1001 :: 64 word) \<le> maxTime"
    by (simp_all add: maxTime_value)
  from Next_strictly_increasing [OF a b c d] a c d e show ?thesis by blast
qed

subsection \<open>Exhausting the sequence numbers of one millisecond\<close>

lemma Next_of_locked:
  assumes "Next_locked s clk = Some (s', clk')"
  shows "Next s clk = Some (fst (SetSN (fst (SetTime (fst (SetNonce (SetNode zero_SFID (node s)) (nonce s))) (tms s'))) (sn s')), s', clk')"
  using assms by (simp add: Next_def Let_def)

lemma Next_locked_fresh:
  assumes "tms s < now"
  shows "Next_locked s (now # clk) = Some (s\<lparr>sn := 0, tms := now\<rparr>, clk)"
  using assms by (simp add: Next_locked_def not_le [symmetric])

lemma Next_locked_same:
  assumes "now \<le> tms s" and "sn s < SNMask"
  shows "Next_locked s (now # clk) = Some (s\<lparr>sn := sn s + 1\<rparr>, clk)"
  using assms sn_increment [OF assms(2)] by (simp add: Next_locked_def Let_def)

lemma Next_locked_wrap:
  assumes "now \<le> tms s" and "sn s = SNMask" and "until (tms s + 1) clk = Some clk'"
  shows "Next_locked s (now # clk) = Some (s\<lparr>sn := 0, tms := tms s + 1\<rparr>, clk')"
  using assms by (simp add: Next_locked_def Let_def SNMask_def)

lemma id_fields:
  assumes "length base = 16" and "t \<le> maxTime" and "k \<le> maxSN"
  shows "Time (fst (SetSN (fst (SetTime base t)) k)) = t"
    and "SN (fst (SetSN (fst (SetTime base t)) k)) = k"
proof -
  have len: "length (fst (SetTime base t)) = 16"
    using assms(1) by (simp add: SetTime_def)
  have "Time (fst (SetSN (fst (SetTime base t)) k)) = Time (fst (SetTime base t))"
    by (simp add: SetSN_def Time_def)
  with Time_SetTime [OF assms(1,2)] show "Time (fst (SetSN (fst (SetTime base t)) k)) = t"
    by simp
  from SN_SetSN [OF len assms(3)] show "SN (fst (SetSN (fst (SetTime base t)) k)) = k" .
qed

lemma id_time_out_of_range:
  assumes "length base = 16" and "maxTime < t"
  shows "Time (fst (SetSN (fst (SetTime base t)) k)) = Time base"
  using assms by (simp add: SetTime_def SetSN_def Time_def)

lemma same_ms_run:
  assumes "\<forall>r \<in> set rs. r \<le> tms s" and "unat (sn s) + length rs < 2 ^ 24"
  shows "\<exists>ids. Nexts (length rs) s (rs @ rest) =
           Some (ids, s\<lparr>sn := sn s + of_nat (length rs)\<rparr>, rest) \<and>
         length ids = length rs \<and>
         (\<forall>i < length rs. ids ! i =
            fst (SetSN (fst (SetTime (fst (SetNonce (SetNode zero_SFID (node s)) (nonce s))) (tms s)))
              (sn s + of_nat (Suc i))))"
  using assms
proof (induction rs arbitrary: s)
  case Nil
  then show ?case by simp
next
  case (Cons r rs)
  let ?id = "\<lambda>k. fst (SetSN (fst (SetTime (fst (SetNonce (SetNode zero_SFID (node s)) (nonce s))) (tms s))) k)"
  let ?s1 = "s\<lparr>sn := sn s + 1\<rparr>"
  from Cons.prems(2) have "unat (sn s) < unat SNMask"
    by (simp add: SNMask_def)
  then have lt: "sn s < SNMask"
    by (simp add: word_less_nat_alt)
  from Cons.prems(1) have r: "r \<le> tms s" by simp
  have first: "Next s (r # rs @ rest) = Some (?id (sn s + 1), ?s1, rs @ rest)"
    using Next_of_locked [OF Next_locked_same [OF r lt, of "rs @ rest"]] by simp
  have "\<forall>r \<in> set rs. r \<le> tms ?s1"
    using Cons.prems(1) by simp
  moreover have "unat (sn ?s1) + length rs < 2 ^ 24"
    using Cons.prems(2) unat_succ_sn(1) [OF lt] by simp
  ultimately obtain ids where run: "Nexts (length rs) ?s1 (rs @ rest) =
        Some (ids, ?s1\<lparr>sn := sn ?s1 + of_nat (length rs)\<rparr>, rest)"
    and len: "length ids = length rs"
    and nth: "\<forall>i < length rs. ids ! i =
        fst (SetSN (fst (SetTime (fst (SetNonce (SetNode zero_SFID (node ?s1)) (nonce ?s1))) (tms ?s1)))
          (sn ?s1 + of_nat (Suc i)))"
    using Cons.IH [of ?s1] by blast
  have final: "?s1\<lparr>sn := sn ?s1 + of_nat (length rs)\<rparr> = s\<lparr>sn := sn s + of_nat (length (r # rs))\<rparr>"
    by (simp add: add.assoc)
  have "Nexts (length (r # rs)) s ((r # rs) @ rest) =
      Some (?id (sn s + 1) # ids, s\<lparr>sn := sn s + of_nat (length (r # rs))\<rparr>, rest)"
    using first run final by simp
  moreover have "length (?id (sn s + 1) # ids) = length (r # rs)"
    using len by simp
  moreover have "(?id (sn s + 1) # ids) ! i = ?id (sn s + of_nat (Suc i))" if "i < length (r # rs)" for i
  proof (cases i)
    case 0
    then show ?thesis by simp
  next
    case (Suc j)
    with that have "j < length rs" by simp
    with nth have "ids ! j = ?id (sn s + 1 + of_nat (Suc j))" by simp
    with Suc show ?thesis by (simp add: add.assoc)
  qed
  ultimately show ?case by blast
qed

lemma length_id_base: "length (fst (SetNonce (SetNode zero_SFID nodeid) n)) = 16"
  by (simp add: length_SetNonce length_SetNode length_zero_SFID)

lemma sn_of_nat:
  assumes "i < 2 ^ 24"
  shows "(of_nat i :: 32 word) \<le> maxSN"
proof -
  from assms have "i < 2 ^ 32"
    by (rule less_le_trans) simp
  then have "unat (of_nat i :: 32 word) = i"
    by (simp add: unat_of_nat)
  with assms show ?thesis
    by (simp add: word_le_nat_alt maxSN_value)
qed

lemma exhaust_run:
  assumes "tms s0 < T" and "length rs = 2 ^ 24 - 1" and "\<forall>r \<in> set rs. r \<le> T"
  shows "\<exists>ids. Nexts (2 ^ 24) s0 (T # rs @ rest) = Some (ids, s0\<lparr>sn := SNMask, tms := T\<rparr>, rest) \<and>
         length ids = 2 ^ 24 \<and>
         (\<forall>i < 2 ^ 24. ids ! i =
            fst (SetSN (fst (SetTime (fst (SetNonce (SetNode zero_SFID (node s0)) (nonce s0))) T))
              (of_nat i)))"
proof -
  let ?id = "\<lambda>k. fst (SetSN (fst (SetTime (fst (SetNonce (SetNode zero_SFID (node s0)) (nonce s0))) T)) k)"
  let ?s1 = "s0\<lparr>sn := 0, tms := T\<rparr>"
  have first: "Next s0 (T # rs @ rest) = Some (?id 0, ?s1, rs @ rest)"
    using Next_of_locked [OF Next_locked_fresh [OF assms(1), of "rs @ rest"]] by simp
  have "\<forall>r \<in> set rs. r \<le> tms ?s1"
    using assms(3) by simp
  moreover have "unat (sn ?s1) + length rs < 2 ^ 24"
    using assms(2) by simp
  ultimately obtain ids where run: "Nexts (length rs) ?s1 (rs @ rest) =
        Some (ids, ?s1\<lparr>sn := sn ?s1 + of_nat (length rs)\<rparr>, rest)"
    and len: "length ids = length rs"
    and nth: "\<forall>i < length rs. ids ! i =
        fst (SetSN (fst (SetTime (fst (SetNonce (SetNode zero_SFID (node ?s1)) (nonce ?s1))) (tms ?s1)))
          (sn ?s1 + of_nat (Suc i)))"
    using same_ms_run [of rs ?s1 rest] by blast
  have n: "(2 :: nat) ^ 24 = Suc (length rs)"
    using assms(2) by simp
  have final: "?s1\<lparr>sn := sn ?s1 + of_nat (length rs)\<rparr> = s0\<lparr>sn := SNMask, tms := T\<rparr>"
    using assms(2) by (simp add: SNMask_def)
  have "Nexts (2 ^ 24) s0 (T # rs @ rest) = Some (?id 0 # ids, s0\<lparr>sn := SNMask, tms := T\<rparr>, rest)"
    unfolding n using first run final by simp
  moreover have "length (?id 0 # ids) = 2 ^ 24"
    unfolding n using len by simp
  moreover have "(?id 0 # ids) ! i = ?id (of_nat i)" if "i < 2 ^ 24" for i
  proof (cases i)
    case 0
    then show ?thesis by simp
  next
    case (Suc j)
    with that n have "j < length rs" by simp
    with nth have "ids ! j = ?id (of_nat (Suc j))" by simp
    with Suc show ?thesis by simp
  qed
  ultimately show ?thesis by blast
qed

lemma wait_until:
  fixes T c :: "64 word"
  assumes "T < maxTime" and "\<forall>w \<in> set ws. w \<le> T" and "T < c" and "c \<le> maxTime"
  shows "until (T + 1) (ws @ c # rest) = Some rest"
proof (rule until_append)
  from assms(1) have Tm: "T \<le> maxTime" by simp
  note u = tms_succ [OF Tm]
  from Tm have Tb: "unat T < 2 ^ 48"
    by (simp add: maxTime_value word_le_nat_alt)
  with u have a: "unat (T + 1) < 2 ^ 62" by simp
  show "\<forall>w \<in> set ws. 0 <s T + 1 - w"
  proof
    fix w assume "w \<in> set ws"
    with assms(2) have w: "w \<le> T" by simp
    then have "unat w \<le> unat T" by (simp add: word_le_nat_alt)
    with Tb have b: "unat w < 2 ^ 62" by simp
    from w u(2) have "w < T + 1" by simp
    with until_test [OF a b] show "0 <s T + 1 - w" by blast
  qed
  from assms(4) have b: "unat c < 2 ^ 62"
    by (simp add: maxTime_value word_le_nat_alt)
  from assms(3) have "unat T < unat c" by (simp add: word_less_nat_alt)
  with u(1) have "\<not> c < T + 1" by (simp add: word_less_nat_alt)
  with until_test [OF a b] show "\<not> 0 <s T + 1 - c" by blast
qed

text \<open>
  C5 (amended). Let \<open>2^24\<close> calls of \<open>Next\<close> follow one another within one millisecond
  \<open>T\<close> with \<open>T + 1 \<le> 2^48 - 1\<close>: the first reads a clock value \<open>T\<close> above the recorded
  timestamp, the other \<open>2^24 - 1\<close> read values that do not exceed \<open>T\<close>. They return
  identifiers with the timestamp \<open>T\<close> and the sequence numbers \<open>0\<close> to \<open>2^24 - 1\<close>, in this
  order. If the next call, the \<open>(2^24 + 1)\<close>-th, again reads a value that does not exceed
  \<open>T\<close>, the counter wraps to zero and the internal timestamp becomes \<open>T + 1\<close>; the call
  reads the clock as long as it shows at most \<open>T\<close> and, at the first reading \<open>c\<close> with
  \<open>T < c \<le> 2^48 - 1\<close>, returns an identifier with sequence number \<open>0\<close> and timestamp
  \<open>T + 1\<close>.
\<close>

theorem sequence_wraparound:
  assumes "tms s0 < T" and "T < maxTime"
    and "length rs = 2 ^ 24 - 1" and "\<forall>r \<in> set rs. r \<le> T"
    and "r \<le> T" and "\<forall>w \<in> set ws. w \<le> T" and "T < c" and "c \<le> maxTime"
  shows "\<exists>ids. Nexts (2 ^ 24) s0 (T # rs @ r # ws @ c # rest) =
            Some (ids, s0\<lparr>sn := SNMask, tms := T\<rparr>, r # ws @ c # rest) \<and>
          length ids = 2 ^ 24 \<and>
          (\<forall>i < 2 ^ 24. Time (ids ! i) = T \<and> SN (ids ! i) = of_nat i) \<and>
          Next (s0\<lparr>sn := SNMask, tms := T\<rparr>) (r # ws @ c # rest) =
            Some (fst (SetSN (fst (SetTime (fst (SetNonce (SetNode zero_SFID (node s0)) (nonce s0))) (T + 1))) 0),
                  s0\<lparr>sn := 0, tms := T + 1\<rparr>, rest) \<and>
          Time (fst (SetSN (fst (SetTime (fst (SetNonce (SetNode zero_SFID (node s0)) (nonce s0))) (T + 1))) 0)) = T + 1 \<and>
          SN (fst (SetSN (fst (SetTime (fst (SetNonce (SetNode zero_SFID (node s0)) (nonce s0))) (T + 1))) 0)) = 0"
proof -
  let ?base = "fst (SetNonce (SetNode zero_SFID (node s0)) (nonce s0))"
  let ?s1 = "s0\<lparr>sn := SNMask, tms := T\<rparr>"
  from assms(2) have Tm: "T \<le> maxTime" by simp
  from exhaust_run [OF assms(1,3,4), of "r # ws @ c # rest"]
  obtain ids where run: "Nexts (2 ^ 24) s0 (T # rs @ r # ws @ c # rest) = Some (ids, ?s1, r # ws @ c # rest)"
    and len: "length ids = 2 ^ 24"
    and nth: "\<forall>i < 2 ^ 24. ids ! i = fst (SetSN (fst (SetTime ?base T)) (of_nat i))"
    by blast
  have fields: "Time (ids ! i) = T \<and> SN (ids ! i) = of_nat i" if "i < 2 ^ 24" for i
    using nth that id_fields [OF length_id_base Tm sn_of_nat [OF that]] by simp
  from assms(2) have "unat T < unat maxTime" by (simp add: word_less_nat_alt)
  with tms_succ(1) [OF Tm] have T1: "T + 1 \<le> maxTime"
    by (simp add: word_le_nat_alt)
  have "until (tms ?s1 + 1) (ws @ c # rest) = Some rest"
    using wait_until [OF assms(2,6,7,8)] by simp
  then have "Next_locked ?s1 (r # ws @ c # rest) = Some (?s1\<lparr>sn := 0, tms := tms ?s1 + 1\<rparr>, rest)"
    using assms(5) by (intro Next_locked_wrap) simp_all
  from Next_of_locked [OF this]
  have last: "Next ?s1 (r # ws @ c # rest) =
      Some (fst (SetSN (fst (SetTime ?base (T + 1))) 0), s0\<lparr>sn := 0, tms := T + 1\<rparr>, rest)"
    by simp
  have "(0 :: 32 word) \<le> maxSN" by simp
  note f = id_fields [OF length_id_base T1 this]
  from run len fields last f show ?thesis by blast
qed

text \<open>
  At \<open>T = 2^48 - 1\<close> the advanced timestamp \<open>2^48\<close> is above \<open>maxTime\<close>: \<^verbatim>\<open>SetTime\<close> fails,
  \<^verbatim>\<open>Next\<close> drops the error, and the identifier of the \<open>(2^24 + 1)\<close>-th call has the
  timestamp \<open>0\<close>, not \<open>2^48\<close>.
\<close>

theorem sequence_wraparound_counterexample:
  "map_option snd (Nexts (2 ^ 24) \<lparr>sn = 0, node = 100, nonce = 123456789, tms = 0\<rparr>
      (0xFFFFFFFFFFFF # replicate (2 ^ 24 - 1) 0xFFFFFFFFFFFF @ [0xFFFFFFFFFFFF, 0x1000000000000])) =
     Some (\<lparr>sn = 0xFFFFFF, node = 100, nonce = 123456789, tms = 0xFFFFFFFFFFFF\<rparr>, [0xFFFFFFFFFFFF, 0x1000000000000]) \<and>
   Next \<lparr>sn = 0xFFFFFF, node = 100, nonce = 123456789, tms = 0xFFFFFFFFFFFF\<rparr> [0xFFFFFFFFFFFF, 0x1000000000000] =
     Some ([0, 0, 0, 0, 0, 0, 0x00, 0x64, 0x00, 0x07, 0x5B, 0xCD, 0x15, 0, 0, 0], \<lparr>sn = 0, node = 100, nonce = 123456789, tms = 0x1000000000000\<rparr>, []) \<and>
   Time [0, 0, 0, 0, 0, 0, 0x00, 0x64, 0x00, 0x07, 0x5B, 0xCD, 0x15, 0, 0, 0] = 0 \<and>
   Time [0, 0, 0, 0, 0, 0, 0x00, 0x64, 0x00, 0x07, 0x5B, 0xCD, 0x15, 0, 0, 0] \<noteq> 0xFFFFFFFFFFFF + 1"
proof -
  have "tms \<lparr>sn = 0, node = 100, nonce = 123456789, tms = 0\<rparr> < 0xFFFFFFFFFFFF"
    by simp
  moreover have "length (replicate (2 ^ 24 - 1) (0xFFFFFFFFFFFF :: 64 word)) = 2 ^ 24 - 1"
    by simp
  moreover have "\<forall>r \<in> set (replicate (2 ^ 24 - 1) (0xFFFFFFFFFFFF :: 64 word)). r \<le> 0xFFFFFFFFFFFF"
    by simp
  ultimately obtain ids where "Nexts (2 ^ 24) \<lparr>sn = 0, node = 100, nonce = 123456789, tms = 0\<rparr>
      (0xFFFFFFFFFFFF # replicate (2 ^ 24 - 1) 0xFFFFFFFFFFFF @ [0xFFFFFFFFFFFF, 0x1000000000000]) =
      Some (ids, \<lparr>sn = 0, node = 100, nonce = 123456789, tms = 0\<rparr>\<lparr>sn := SNMask, tms := 0xFFFFFFFFFFFF\<rparr>, [0xFFFFFFFFFFFF, 0x1000000000000])"
    using exhaust_run [of "\<lparr>sn = 0, node = 100, nonce = 123456789, tms = 0\<rparr>" "0xFFFFFFFFFFFF" "replicate (2 ^ 24 - 1) 0xFFFFFFFFFFFF"
        "[0xFFFFFFFFFFFF, 0x1000000000000]"]
    by blast
  then have run: "map_option snd (Nexts (2 ^ 24) \<lparr>sn = 0, node = 100, nonce = 123456789, tms = 0\<rparr>
      (0xFFFFFFFFFFFF # replicate (2 ^ 24 - 1) 0xFFFFFFFFFFFF @ [0xFFFFFFFFFFFF, 0x1000000000000])) =
     Some (\<lparr>sn = 0xFFFFFF, node = 100, nonce = 123456789, tms = 0xFFFFFFFFFFFF\<rparr>, [0xFFFFFFFFFFFF, 0x1000000000000])"
    by (simp add: SNMask_def)
  have last: "Next \<lparr>sn = 0xFFFFFF, node = 100, nonce = 123456789, tms = 0xFFFFFFFFFFFF\<rparr> [0xFFFFFFFFFFFF, 0x1000000000000] = Some ([0, 0, 0, 0, 0, 0, 0x00, 0x64, 0x00, 0x07, 0x5B, 0xCD, 0x15, 0, 0, 0], \<lparr>sn = 0, node = 100, nonce = 123456789, tms = 0x1000000000000\<rparr>, [])"
    by code_simp
  have t: "Time [0, 0, 0, 0, 0, 0, 0x00, 0x64, 0x00, 0x07, 0x5B, 0xCD, 0x15, 0, 0, 0] = 0"
    by (simp add: Time_def)
  from run last t show ?thesis by simp
qed

theorem sequence_wraparound_witness:
  "tms \<lparr>sn = 0, node = 100, nonce = 123456789, tms = 0\<rparr> < 1000 \<and> (1000 :: 64 word) < maxTime \<and>
   length (replicate (2 ^ 24 - 1) (1000 :: 64 word)) = 2 ^ 24 - 1 \<and>
   (1000 :: 64 word) \<le> 1000 \<and> (1000 :: 64 word) < 1001 \<and> (1001 :: 64 word) \<le> maxTime \<and>
   map_option snd (Nexts (2 ^ 24) \<lparr>sn = 0, node = 100, nonce = 123456789, tms = 0\<rparr>
      (1000 # replicate (2 ^ 24 - 1) 1000 @ 1000 # [1000, 1000] @ 1001 # [])) =
     Some (\<lparr>sn = 0xFFFFFF, node = 100, nonce = 123456789, tms = 1000\<rparr>, 1000 # [1000, 1000] @ 1001 # []) \<and>
   Next \<lparr>sn = 0xFFFFFF, node = 100, nonce = 123456789, tms = 1000\<rparr> (1000 # [1000, 1000] @ 1001 # []) = Some ([0, 0, 0, 0, 0x03, 0xE9, 0x00, 0x64, 0x00, 0x07, 0x5B, 0xCD, 0x15, 0, 0, 0], \<lparr>sn = 0, node = 100, nonce = 123456789, tms = 1001\<rparr>, []) \<and>
   Time [0, 0, 0, 0, 0x03, 0xE9, 0x00, 0x64, 0x00, 0x07, 0x5B, 0xCD, 0x15, 0, 0, 0] = 1001 \<and> SN [0, 0, 0, 0, 0x03, 0xE9, 0x00, 0x64, 0x00, 0x07, 0x5B, 0xCD, 0x15, 0, 0, 0] = 0"
proof -
  have h1: "tms \<lparr>sn = 0, node = 100, nonce = 123456789, tms = 0\<rparr> < 1000"
    by simp
  have h2: "(1000 :: 64 word) < maxTime"
    by (simp add: maxTime_value)
  have h3: "length (replicate (2 ^ 24 - 1) (1000 :: 64 word)) = 2 ^ 24 - 1"
    by simp
  have h4: "\<forall>r \<in> set (replicate (2 ^ 24 - 1) (1000 :: 64 word)). r \<le> 1000"
    by simp
  have h5: "(1000 :: 64 word) \<le> 1000"
    by simp
  have h6: "\<forall>w \<in> set [1000, 1000 :: 64 word]. w \<le> 1000"
    by simp
  have h7: "(1000 :: 64 word) < 1001"
    by simp
  have h8: "(1001 :: 64 word) \<le> maxTime"
    by (simp add: maxTime_value)
  have s1: "\<lparr>sn = 0, node = 100, nonce = 123456789, tms = 0\<rparr>\<lparr>sn := SNMask, tms := 1000\<rparr> = \<lparr>sn = 0xFFFFFF, node = 100, nonce = 123456789, tms = 1000\<rparr>"
    by (simp add: SNMask_def)
  have s2: "\<lparr>sn = 0, node = 100, nonce = 123456789, tms = 0\<rparr>\<lparr>sn := 0, tms := 1000 + 1\<rparr> = \<lparr>sn = 0, node = 100, nonce = 123456789, tms = 1001\<rparr>"
    by simp
  have x: "fst (SetSN (fst (SetTime (fst (SetNonce (SetNode zero_SFID (node \<lparr>sn = 0, node = 100, nonce = 123456789, tms = 0\<rparr>)) (nonce \<lparr>sn = 0, node = 100, nonce = 123456789, tms = 0\<rparr>))) (1000 + 1))) 0) = [0, 0, 0, 0, 0x03, 0xE9, 0x00, 0x64, 0x00, 0x07, 0x5B, 0xCD, 0x15, 0, 0, 0]"
    by code_simp
  from sequence_wraparound [OF h1 h2 h3 h4 h5 h6 h7 h8, of "[]"]
  obtain ids where "Nexts (2 ^ 24) \<lparr>sn = 0, node = 100, nonce = 123456789, tms = 0\<rparr>
      (1000 # replicate (2 ^ 24 - 1) 1000 @ 1000 # [1000, 1000] @ 1001 # []) =
      Some (ids, \<lparr>sn = 0xFFFFFF, node = 100, nonce = 123456789, tms = 1000\<rparr>, 1000 # [1000, 1000] @ 1001 # [])"
    and "Next \<lparr>sn = 0xFFFFFF, node = 100, nonce = 123456789, tms = 1000\<rparr> (1000 # [1000, 1000] @ 1001 # []) = Some ([0, 0, 0, 0, 0x03, 0xE9, 0x00, 0x64, 0x00, 0x07, 0x5B, 0xCD, 0x15, 0, 0, 0], \<lparr>sn = 0, node = 100, nonce = 123456789, tms = 1001\<rparr>, [])"
    and "Time [0, 0, 0, 0, 0x03, 0xE9, 0x00, 0x64, 0x00, 0x07, 0x5B, 0xCD, 0x15, 0, 0, 0] = 1001" and "SN [0, 0, 0, 0, 0x03, 0xE9, 0x00, 0x64, 0x00, 0x07, 0x5B, 0xCD, 0x15, 0, 0, 0] = 0"
    unfolding s1 s2 x by auto
  with h1 h2 h3 h5 h7 h8 show ?thesis by simp
qed

end
